theory Spec2Isabelle
  imports Main
begin

section \<open>Strings\<close>

text \<open>
  A Python string is a sequence of code points.  The model is of text whose code points
  lie below 256 (Latin-1): a \<open>char\<close> is the code point \<open>of_char c\<close>, and the string
  methods and regular expression classes the scraper uses are written out as Python
  defines them on these code points.

  \<^verbatim>\<open>str.lower\<close> maps A to Z and the capital letters of Latin-1 (192 to 214 and 216 to
  222) to the letter 32 places on, and leaves every other code point as it is.
\<close>

definition lower_char :: "char \<Rightarrow> char" where
  "lower_char c =
     (let n = (of_char c :: nat)
      in if (65 \<le> n \<and> n \<le> 90) \<or> (192 \<le> n \<and> n \<le> 214) \<or> (216 \<le> n \<and> n \<le> 222)
         then char_of (n + 32) else c)"

definition lower :: "string \<Rightarrow> string" where
  "lower s = map lower_char s"

text \<open>
  White space, for \<^verbatim>\<open>str.strip\<close>, \<^verbatim>\<open>str.isspace\<close> and the class \<^verbatim>\<open>\s\<close> of a
  regular expression on a \<^verbatim>\<open>str\<close>: the code points 9 to 13 and 28 to 32, the next
  line control 133 and the no-break space 160.
\<close>

definition is_space :: "char \<Rightarrow> bool" where
  "is_space c =
     (let n = (of_char c :: nat)
      in (9 \<le> n \<and> n \<le> 13) \<or> (28 \<le> n \<and> n \<le> 32) \<or> n = 133 \<or> n = 160)"

text \<open>The class \<^verbatim>\<open>\d\<close> of a regular expression: the decimal digits 0 to 9.\<close>

definition is_decimal :: "char \<Rightarrow> bool" where
  "is_decimal c = (let n = (of_char c :: nat) in 48 \<le> n \<and> n \<le> 57)"

text \<open>
  A digit for \<^verbatim>\<open>str.isdigit\<close>: a decimal digit or one of the superscripts two, three
  and one (178, 179, 185).
\<close>

definition is_digit :: "char \<Rightarrow> bool" where
  "is_digit c =
     (let n = (of_char c :: nat) in (48 \<le> n \<and> n \<le> 57) \<or> n = 178 \<or> n = 179 \<or> n = 185)"

text \<open>\<^verbatim>\<open>s.strip()\<close>\<close>

definition strip :: "string \<Rightarrow> string" where
  "strip s = rev (dropWhile is_space (rev (dropWhile is_space s)))"

text \<open>\<^verbatim>\<open>s.startswith(p)\<close>\<close>

definition startswith :: "string \<Rightarrow> string \<Rightarrow> bool" where
  "startswith s p = (take (length p) s = p)"

text \<open>\<^verbatim>\<open>sub in s\<close>\<close>

fun contains :: "string \<Rightarrow> string \<Rightarrow> bool" where
  "contains sub [] = (sub = [])"
| "contains sub (c # cs) = (startswith (c # cs) sub \<or> contains sub cs)"

text \<open>\<^verbatim>\<open>s.isdigit()\<close>\<close>

definition isdigit :: "string \<Rightarrow> bool" where
  "isdigit s = (s \<noteq> [] \<and> list_all is_digit s)"

text \<open>\<^verbatim>\<open>s.replace(c, r)\<close> for a one-character pattern.\<close>

definition replace_char :: "char \<Rightarrow> string \<Rightarrow> string \<Rightarrow> string" where
  "replace_char c r s = concat (map (\<lambda>x. if x = c then r else [x]) s)"

text \<open>\<^verbatim>\<open>int(s)\<close> on a run of decimal digits.\<close>

definition digit_val :: "char \<Rightarrow> int" where
  "digit_val c = int (of_char c) - 48"

definition int_of_digits :: "string \<Rightarrow> int" where
  "int_of_digits s = foldl (\<lambda>n c. 10 * n + digit_val c) 0 s"

text \<open>\<^verbatim>\<open>str(n)\<close>, as the f-strings of the scraper format a number.\<close>

fun digits_of_nat :: "nat \<Rightarrow> string" where
  "digits_of_nat n =
     (if n < 10 then [''0123456789'' ! n]
      else digits_of_nat (n div 10) @ [''0123456789'' ! (n mod 10)])"

declare digits_of_nat.simps [simp del]

definition str_int :: "int \<Rightarrow> string" where
  "str_int i = (if i < 0 then CHR ''-'' # digits_of_nat (nat (- i)) else digits_of_nat (nat i))"

section \<open>Pages, the network and the disk\<close>

text \<open>
  BeautifulSoup, requests, urllib and reportlab are libraries outside the repository.
  A parsed page is what the scraper can observe of it: the elements a CSS selector
  matches, in document order, and the elements \<^verbatim>\<open>find_all\<close> finds.  An element is
  observed through \<^verbatim>\<open>get_text()\<close>, \<^verbatim>\<open>get_text(strip=True)\<close>, \<^verbatim>\<open>get('href')\<close>
  and \<^verbatim>\<open>find_all('a')\<close>.
\<close>

datatype element =
  Element (get_text: string) (get_text_strip: string) (get_href: "string option")
          (find_all_a: "element list")

record soup =
  select :: "string \<Rightarrow> element list"
  find_all :: "string \<Rightarrow> element list"

definition select_one :: "soup \<Rightarrow> string \<Rightarrow> element option" where
  "select_one s sel = (case select s sel of [] \<Rightarrow> None | e # _ \<Rightarrow> Some e)"

text \<open>
  What the program does to the outside world is recorded as a list of events, oldest
  first: each \<^verbatim>\<open>time.sleep\<close> with the attempt number that fixed the range of its random
  delay, each \<^verbatim>\<open>session.get\<close> with the attempt number and the url, and the warning and
  error lines of the fetcher with the values they print.
\<close>

datatype event =
  Sleep int
| Get int string
| Warning string int string
| Error string int string

datatype style = Title | Heading1 | Heading2 | Normal

datatype flowable = Paragraph string style | Spacer int int

record world =
  events :: "event list"
  files :: "string set"

text \<open>
  The environment of a run.  \<open>http_get\<close> is \<^verbatim>\<open>session.get\<close> followed by
  \<^verbatim>\<open>raise_for_status\<close> and the parse of the body: given the events so far and a url it
  is either the message of the \<^verbatim>\<open>RequestException\<close> raised or the parsed page, so a
  server may answer the same url differently over time.  \<open>hostname\<close> is
  \<^verbatim>\<open>urlparse(url).hostname\<close> and \<open>urljoin\<close> is \<^verbatim>\<open>urllib.parse.urljoin\<close>.
  \<open>paragraph_ok\<close> tells whether reportlab makes a \<^verbatim>\<open>Paragraph\<close> of the given text
  and style without raising (it parses the text as markup when the paragraph is made),
  and \<open>build_pdf\<close> whether \<^verbatim>\<open>doc.build\<close> writes the given flowables into the given
  file without raising.
\<close>

record env =
  base_url :: string
  downloads_folder :: string
  http_get :: "event list \<Rightarrow> string \<Rightarrow> string + soup"
  hostname :: "string \<Rightarrow> string option"
  urljoin :: "string \<Rightarrow> string \<Rightarrow> string"
  paragraph_ok :: "string \<Rightarrow> style \<Rightarrow> bool"
  build_pdf :: "string \<Rightarrow> flowable list \<Rightarrow> bool"

definition emit :: "event \<Rightarrow> world \<Rightarrow> world" where
  "emit e w = w\<lparr>events := events w @ [e]\<rparr>"

section \<open>The fetcher\<close>

definition blocked :: "string list" where
  "blocked = [''reddit'', ''twitter'', ''facebook'', ''twitch'']"

definition url_host :: "env \<Rightarrow> string \<Rightarrow> string" where
  "url_host E url =
     (case hostname E url of None \<Rightarrow> [] | Some h \<Rightarrow> if h = [] then [] else lower h)"

text \<open>
  The body of \<^verbatim>\<open>for attempt in range(max_retries+1)\<close>, over the attempts that remain.
  Leaving the loop without a return is Python's implicit \<^verbatim>\<open>return None\<close>.
\<close>

fun attempts :: "env \<Rightarrow> string \<Rightarrow> int \<Rightarrow> int list \<Rightarrow> world \<Rightarrow> soup option \<times> world" where
  "attempts E url max_retries [] w = (None, w)"
| "attempts E url max_retries (attempt # rest) w =
     (let w1 = emit (Sleep attempt) w;
          w2 = emit (Get attempt url) w1
      in case http_get E (events w1) url of
           Inr r \<Rightarrow> (Some r, w2)
         | Inl e \<Rightarrow>
             if attempt = max_retries then (None, emit (Error url (max_retries + 1) e) w2)
             else attempts E url max_retries rest (emit (Warning url (attempt + 1) e) w2))"

definition make_request_with_retry ::
    "env \<Rightarrow> string \<Rightarrow> int \<Rightarrow> world \<Rightarrow> soup option \<times> world" where
  "make_request_with_retry E url max_retries w =
     (if list_ex (\<lambda>k. contains k (url_host E url)) blocked then (None, w)
      else attempts E url max_retries [0..max_retries] w)"

fun is_get :: "event \<Rightarrow> bool" where
  "is_get (Get a u) = True"
| "is_get _ = False"

fun is_error :: "event \<Rightarrow> bool" where
  "is_error (Error u n e) = True"
| "is_error _ = False"

text \<open>
  The urls whose fetch reached the network: one entry for each first attempt.  The
  retries of a fetch carry a positive attempt number and are not counted again.
\<close>

fun fetched :: "event list \<Rightarrow> string list" where
  "fetched [] = []"
| "fetched (Get a u # es) = (if a = 0 then u # fetched es else fetched es)"
| "fetched (Sleep a # es) = fetched es"
| "fetched (Warning u n e # es) = fetched es"
| "fetched (Error u n e # es) = fetched es"

text \<open>
  The pages received: the answers of \<open>http_get\<close> to the successful requests among the
  events \<open>es\<close> that follow the history \<open>h\<close>, with their urls, in the order of arrival.
\<close>

fun received :: "env \<Rightarrow> event list \<Rightarrow> event list \<Rightarrow> (string \<times> soup) list" where
  "received E h [] = []"
| "received E h (Get a u # es) =
     (case http_get E h u of Inr r \<Rightarrow> [(u, r)] | Inl e \<Rightarrow> []) @ received E (h @ [Get a u]) es"
| "received E h (Sleep a # es) = received E (h @ [Sleep a]) es"
| "received E h (Warning u n e # es) = received E (h @ [Warning u n e]) es"
| "received E h (Error u n e # es) = received E (h @ [Error u n e]) es"

section \<open>File names\<close>

definition forbidden :: "char list" where
  "forbidden = [CHR ''<'', CHR ''>'', CHR '':'', CHR 0x22, CHR ''/'', CHR 0x5C, CHR ''|'',
                CHR ''?'', CHR ''*'']"

text \<open>\<^verbatim>\<open>re.sub(r'\s+', ' ', fn)\<close>\<close>

function collapse_ws :: "string \<Rightarrow> string" where
  "collapse_ws [] = []"
| "collapse_ws (c # cs) =
     (if is_space c then CHR '' '' # collapse_ws (dropWhile is_space cs)
      else c # collapse_ws cs)"
  by pat_completeness auto
termination
  by (relation "measure length") (auto simp: le_imp_less_Suc length_dropWhile_le)

definition sanitize_filename :: "string \<Rightarrow> string" where
  "sanitize_filename fn =
     (let fn1 = filter (\<lambda>c. c \<notin> set forbidden) fn;
          fn2 = take 200 (strip (collapse_ws fn1))
      in if fn2 \<noteq> [] then fn2 else ''untitled'')"

text \<open>\<^verbatim>\<open>os.path.join(a, b)\<close> of \<^verbatim>\<open>posixpath\<close>.\<close>

definition os_path_join :: "string \<Rightarrow> string \<Rightarrow> string" where
  "os_path_join a b =
     (if startswith b ''/'' then b
      else if a = [] \<or> last a = CHR ''/'' then a @ b
      else a @ ''/'' @ b)"

definition pdf_path :: "env \<Rightarrow> string \<Rightarrow> string" where
  "pdf_path E name = os_path_join (downloads_folder E) (name @ ''.pdf'')"

section \<open>The extractor\<close>






definition t_sels :: "string list" where
  \<open>t_sels =
     [''h1'', ''h1.headline'', ''h1.story-title'', ''h1.title'', ''.story-title'', ''.title'',
      ''h2.entry-title'', ''header h1'', ''div.story-header h1'', ''[class*="title"] h1'',
      ''h1.storyname'', ''div.story-header h2'']\<close>

definition body_sels :: "string list" where
  \<open>body_sels =
     [''div.story-text p'', ''.story-content p'', ''.story-body p'', ''#story p'',
      ''div[class*="story"] p'', ''.content p'', ''.entry-content p'', ''div.content p'',
      ''article p'', ''#story-text p'', ''.post-content p'', ''div.text p'', ''main p'', ''p'']\<close>

definition n_sels :: "string list" where
  \<open>n_sels =
     [''a[href*="chapter"]'', ''a[href*="page"]'', ''.next-chapter a'',
      ''.pagination a[href*="page"]'']\<close>

fun find_title :: "soup \<Rightarrow> string list \<Rightarrow> string" where
  "find_title sp [] = []"
| "find_title sp (s # sels) =
     (case select_one sp s of Some el \<Rightarrow> get_text_strip el | None \<Rightarrow> find_title sp sels)"

text \<open>\<^verbatim>\<open>a.get('href', '')\<close>\<close>

definition href_or_empty :: "element \<Rightarrow> string" where
  "href_or_empty a = (case get_href a of None \<Rightarrow> [] | Some h \<Rightarrow> h)"

text \<open>The test of line 85 on one paragraph element, and the loop that collects \<^verbatim>\<open>val\<close>.\<close>

definition add_para :: "string list \<Rightarrow> element \<Rightarrow> string list" where
  "add_para val p =
     (let text = get_text_strip p
      in if text \<noteq> [] \<and> length text > 10
            \<and> \<not> list_ex (\<lambda>a. startswith (lower (href_or_empty a)) ''/s/'') (find_all_a p)
         then val @ [text] else val)"

fun find_paras :: "soup \<Rightarrow> string list \<Rightarrow> string list" where
  "find_paras sp [] = []"
| "find_paras sp (s # sels) =
     (let ps = select sp s
      in if ps \<noteq> [] then
           (let val = foldl add_para [] ps
            in if val \<noteq> [] \<and> length val > 1 then val else find_paras sp sels)
         else find_paras sp sels)"

definition extract_paras :: "soup \<Rightarrow> string list" where
  "extract_paras sp =
     (let paras = find_paras sp body_sels
      in if paras = [] then
           (let ps = find_all sp ''p''
            in if ps \<noteq> [] then
                 map get_text_strip
                   (filter (\<lambda>p. get_text_strip p \<noteq> [] \<and> length (get_text_strip p) > 20) ps)
               else paras)
         else paras)"

definition add_next :: "env \<Rightarrow> string \<Rightarrow> string list \<Rightarrow> element \<Rightarrow> string list" where
  "add_next E story_url ch_links l =
     (case get_href l of
        None \<Rightarrow> ch_links
      | Some href \<Rightarrow>
          if href \<noteq> [] \<and> (contains ''next'' (lower (get_text l))
                           \<or> contains ''chapter'' (lower href)
                           \<or> isdigit (strip (get_text l)))
          then ch_links @ [urljoin E story_url href] else ch_links)"

definition extract_nexts :: "env \<Rightarrow> soup \<Rightarrow> string \<Rightarrow> string list" where
  "extract_nexts E sp story_url =
     foldl (\<lambda>ch_links s. foldl (add_next E story_url) ch_links (select sp s)) [] n_sels"

text \<open>
  The series link.  The selector matches only anchors that carry an \<^verbatim>\<open>href\<close>, so the
  subscript \<^verbatim>\<open>se['href']\<close> of the source cannot raise; an element without one gives no
  series link here.
\<close>

definition extract_series :: "env \<Rightarrow> soup \<Rightarrow> string option" where
  \<open>extract_series E sp =
     (case select_one sp ''a.z_t[href*="/series/se/"]'' of
        None \<Rightarrow> None
      | Some se \<Rightarrow>
          (case get_href se of None \<Rightarrow> None | Some h \<Rightarrow> Some (urljoin E (base_url E) h)))\<close>

definition extract_story_content ::
    "env \<Rightarrow> soup \<Rightarrow> string \<Rightarrow> string \<times> string list \<times> string list \<times> string option" where
  "extract_story_content E sp story_url =
     (find_title sp t_sels, extract_paras sp, extract_nexts E sp story_url, extract_series E sp)"

section \<open>Following the next links\<close>

text \<open>
  \<^verbatim>\<open>for n in nexts: if n not in done and n not in todo: todo.append(n)\<close>
\<close>

definition enqueue :: "string set \<Rightarrow> string list \<Rightarrow> string list \<Rightarrow> string list" where
  "enqueue done todo nexts =
     foldl (\<lambda>todo n. if n \<notin> done \<and> n \<notin> set todo then todo @ [n] else todo) todo nexts"

text \<open>
  The \<^verbatim>\<open>while todo\<close> loop of \<^verbatim>\<open>find_series_link_from_all_pages\<close>, as a function of its
  variables.  A site may hand out new links for ever, so the loop is a partial function:
  \<open>None\<close> is a run that does not return.
\<close>

partial_function (option) series_walk ::
    "env \<Rightarrow> string list \<Rightarrow> string set \<Rightarrow> world \<Rightarrow> (string option \<times> world) option" where
  "series_walk E todo done w =
     (case todo of
        [] \<Rightarrow> Some (None, w)
      | u # todo' \<Rightarrow>
          if u \<in> done then series_walk E todo' done w
          else
            (let done' = insert u done;
                 (r, w') = make_request_with_retry E u 3 w
             in case r of
                  None \<Rightarrow> series_walk E todo' done' w'
                | Some sp \<Rightarrow>
                    (case extract_story_content E sp u of
                       (t, pp, nexts, ser) \<Rightarrow>
                         if ser \<noteq> None \<and> ser \<noteq> Some [] then Some (ser, w')
                         else series_walk E (enqueue done' todo' nexts) done' w')))"

definition find_series_link_from_all_pages ::
    "env \<Rightarrow> string \<Rightarrow> world \<Rightarrow> (string option \<times> world) option" where
  "find_series_link_from_all_pages E story_url w = series_walk E [story_url] {} w"

text \<open>
  What one fetched page adds to the text collected so far (lines 184 to 186 and 214 to
  216): nothing when it has no paragraphs, else its paragraphs, after a part marker when
  the part counter is beyond 1.
\<close>

definition add_part :: "int \<Rightarrow> string list \<Rightarrow> string list \<Rightarrow> string list" where
  "add_part part pc pp =
     (if pp \<noteq> [] then (if part > 1 then pc @ [''PART '' @ str_int part] else pc) @ pp
      else pc)"

text \<open>
  The \<^verbatim>\<open>while pages\<close> loop over the pages of one chapter (lines 176 to 189).  It
  returns the final values of \<^verbatim>\<open>done\<close>, \<^verbatim>\<open>part\<close> and \<^verbatim>\<open>pc\<close>.
\<close>

partial_function (option) chapter_walk ::
    "env \<Rightarrow> string list \<Rightarrow> string set \<Rightarrow> int \<Rightarrow> string list \<Rightarrow> world
       \<Rightarrow> (string set \<times> int \<times> string list \<times> world) option" where
  "chapter_walk E pages done part pc w =
     (case pages of
        [] \<Rightarrow> Some (done, part, pc, w)
      | cu # pages' \<Rightarrow>
          if cu \<in> done then chapter_walk E pages' done part pc w
          else
            (let done' = insert cu done;
                 (pr, w') = make_request_with_retry E cu 3 w
             in case pr of
                  None \<Rightarrow> chapter_walk E pages' done' part pc w'
                | Some ps \<Rightarrow>
                    (case extract_story_content E ps cu of
                       (t, pp, nexts, ser) \<Rightarrow>
                         chapter_walk E (enqueue done' pages' nexts) done' (part + 1)
                           (add_part part pc pp) w')))"

text \<open>
  The \<^verbatim>\<open>while todo\<close> loop of the single story mode (lines 204 to 219).  The page of
  \<^verbatim>\<open>surl\<close> was fetched before the loop; \<open>pp\<close> and \<open>ch_links\<close> are what was extracted
  from it.
\<close>

partial_function (option) story_walk ::
    "env \<Rightarrow> string \<Rightarrow> string list \<Rightarrow> string list \<Rightarrow> string list \<Rightarrow> string set \<Rightarrow> int
       \<Rightarrow> string list \<Rightarrow> world \<Rightarrow> (string set \<times> int \<times> string list \<times> world) option" where
  "story_walk E surl pp ch_links todo done part allc w =
     (case todo of
        [] \<Rightarrow> Some (done, part, allc, w)
      | cu # todo' \<Rightarrow>
          if cu \<in> done then story_walk E surl pp ch_links todo' done part allc w
          else
            (let done' = insert cu done
             in if cu = surl then
                  story_walk E surl pp ch_links (enqueue done' todo' ch_links) done' (part + 1)
                    (add_part part allc pp) w
                else
                  (case make_request_with_retry E cu 3 w of
                     (rr, w') \<Rightarrow>
                       (case rr of
                          None \<Rightarrow> story_walk E surl pp ch_links todo' done' part allc w'
                        | Some ps \<Rightarrow>
                            (case extract_story_content E ps cu of
                               (t, paras, chs, ser) \<Rightarrow>
                                 story_walk E surl pp ch_links (enqueue done' todo' chs) done'
                                   (part + 1) (add_part part allc paras) w')))))"

section \<open>The renderer\<close>

definition escape :: "string \<Rightarrow> string" where
  "escape item =
     replace_char CHR ''>'' ''&gt;'' (replace_char CHR ''<'' ''&lt;''
       (replace_char CHR ''&'' ''&amp;'' item))"

text \<open>
  \<^verbatim>\<open>Paragraph(text, style)\<close>: the flowable, or \<open>None\<close> when reportlab raises on the
  text.
\<close>

definition make_paragraph :: "env \<Rightarrow> string \<Rightarrow> style \<Rightarrow> flowable option" where
  "make_paragraph E text st = (if paragraph_ok E text st then Some (Paragraph text st) else None)"

text \<open>
  The body of \<^verbatim>\<open>for item in paras\<close>, and the loop.  \<open>None\<close> is an exception, which
  leaves the loop.
\<close>

definition add_item :: "env \<Rightarrow> flowable list \<Rightarrow> string \<Rightarrow> flowable list option" where
  "add_item E story item =
     (if startswith item ''Chapter '' then
        (case make_paragraph E item Heading1 of
           None \<Rightarrow> None | Some p \<Rightarrow> Some (story @ [p, Spacer 1 24]))
      else if startswith item ''PART '' then
        (case make_paragraph E item Heading2 of
           None \<Rightarrow> None | Some p \<Rightarrow> Some (story @ [p, Spacer 1 12]))
      else if strip item \<noteq> [] then
        (case make_paragraph E (escape item) Normal of
           None \<Rightarrow> None | Some p \<Rightarrow> Some (story @ [p, Spacer 1 6]))
      else Some story)"

fun add_items :: "env \<Rightarrow> flowable list \<Rightarrow> string list \<Rightarrow> flowable list option" where
  "add_items E story [] = Some story"
| "add_items E story (item # paras) =
     (case add_item E story item of
        None \<Rightarrow> None
      | Some story' \<Rightarrow> add_items E story' paras)"

text \<open>
  \<^verbatim>\<open>create_pdf\<close>: an exception while the paragraphs are made or while the document is
  built is caught and gives \<^verbatim>\<open>False\<close>; a built document is a new file.
\<close>

definition create_pdf :: "env \<Rightarrow> string \<Rightarrow> string list \<Rightarrow> string \<Rightarrow> world \<Rightarrow> bool \<times> world" where
  "create_pdf E title paras filename w =
     (let fp = pdf_path E filename
      in case make_paragraph E title Title of
           None \<Rightarrow> (False, w)
         | Some t \<Rightarrow>
             (case add_items E [t, Spacer 1 12] paras of
                None \<Rightarrow> (False, w)
              | Some story \<Rightarrow>
                  if build_pdf E fp story then (True, w\<lparr>files := insert fp (files w)\<rparr>)
                  else (False, w)))"

section \<open>One story\<close>

definition ch_sels :: "string list" where
  \<open>ch_sels =
     [''ul.series__works a.br_rj[href*="/s/"]'', ''div.sl-list a.br_rj[href*="/s/"]'',
      ''div.sl-list a[href*="/s/"]'', ''div.series-nav a[href*="/s/"]'']\<close>

text \<open>
  \<^verbatim>\<open>re.search(r'(?:Ch\.?|Pt\.?)\s*(\d+)(?:-\d+)?', ch_t, re.I)\<close>.  A match at the head
  of \<open>s\<close> reads \<^verbatim>\<open>ch\<close> or \<^verbatim>\<open>pt\<close> in any case, an optional dot, white space and then
  at least one decimal digit; group 1 is the whole run of digits, since the rest of the
  pattern is optional.  The search takes the leftmost position that matches.
\<close>

definition match_chapter_at :: "string \<Rightarrow> string option" where
  "match_chapter_at s =
     (if lower (take 2 s) = ''ch'' \<or> lower (take 2 s) = ''pt'' then
        (let r1 = drop 2 s;
             r2 = (if startswith r1 ''.'' then drop 1 r1 else r1);
             digits = takeWhile is_decimal (dropWhile is_space r2)
         in if digits \<noteq> [] then Some digits else None)
      else None)"

fun search_chapter :: "string \<Rightarrow> string option" where
  "search_chapter [] = None"
| "search_chapter (c # cs) =
     (case match_chapter_at (c # cs) of Some d \<Rightarrow> Some d | None \<Rightarrow> search_chapter cs)"

text \<open>The order key of a chapter label \<open>ch_t\<close> under the series title \<open>st\<close> (lines 164 to 167).\<close>

definition chapter_order :: "string \<Rightarrow> string \<Rightarrow> int" where
  "chapter_order ch_t st =
     (case search_chapter ch_t of
        Some d \<Rightarrow> int_of_digits d
      | None \<Rightarrow>
          if strip ch_t = strip st \<or> startswith (lower ch_t) (lower st) then 1 else 999)"

definition add_chapter ::
    "env \<Rightarrow> string \<Rightarrow> (string \<times> string \<times> int) list \<Rightarrow> element
       \<Rightarrow> (string \<times> string \<times> int) list" where
  "add_chapter E st ch_links e =
     (case get_href e of
        None \<Rightarrow> ch_links
      | Some href \<Rightarrow>
          if href \<noteq> [] \<and> contains ''/s/'' href then
            (let full = (if startswith href ''http'' then href else urljoin E (base_url E) href);
                 ch_t = get_text_strip e
             in ch_links @ [(ch_t, full, chapter_order ch_t st)])
          else ch_links)"

text \<open>The loop over \<^verbatim>\<open>ch_sels\<close> (lines 155 to 169).\<close>

fun series_chapters ::
    "env \<Rightarrow> soup \<Rightarrow> string \<Rightarrow> string list \<Rightarrow> (string \<times> string \<times> int) list
       \<Rightarrow> (string \<times> string \<times> int) list" where
  "series_chapters E sp st [] ch_links = ch_links"
| "series_chapters E sp st (s # sels) ch_links =
     (let es = select sp s
      in if es \<noteq> [] then
           (let ch_links' = foldl (add_chapter E st) ch_links es
            in if ch_links' \<noteq> [] then ch_links' else series_chapters E sp st sels ch_links')
         else series_chapters E sp st sels ch_links)"

text \<open>
  \<^verbatim>\<open>ch_links.sort(key=lambda x:x[2])\<close>.  Python's sort is stable; so is \<open>sort_key\<close>.
\<close>

definition sort_chapters :: "(string \<times> string \<times> int) list \<Rightarrow> (string \<times> string \<times> int) list" where
  "sort_chapters ch_links = sort_key (\<lambda>x. snd (snd x)) ch_links"

definition chapter_heading :: "int \<Rightarrow> string \<Rightarrow> string" where
  "chapter_heading cnum ct =
     (if cnum = 1 then ''Chapter '' @ str_int cnum @ '': '' @ ct
      else CHR 0x0A # ''Chapter '' @ str_int cnum @ '': '' @ ct)"

text \<open>The loop \<^verbatim>\<open>for ct,curl,_ in ch_links\<close> (lines 173 to 191).\<close>

fun series_body ::
    "env \<Rightarrow> (string \<times> string \<times> int) list \<Rightarrow> string list \<Rightarrow> int \<Rightarrow> world
       \<Rightarrow> (string list \<times> world) option" where
  "series_body E [] allc cnum w = Some (allc, w)"
| "series_body E ((ct, curl, num) # rest) allc cnum w =
     (case chapter_walk E [curl] {} 1 [] w of
        None \<Rightarrow> None
      | Some (done, part, pc, w') \<Rightarrow>
          series_body E rest (allc @ [chapter_heading cnum ct] @ pc) (cnum + 1) w')"

text \<open>
  The series branch of \<^verbatim>\<open>scrape_story\<close> (lines 143 to 193).  \<open>Some b\<close> is
  \<^verbatim>\<open>return b\<close>; \<open>None\<close> is control reaching line 194.
\<close>

definition series_story ::
    "env \<Rightarrow> string \<Rightarrow> string \<Rightarrow> world \<Rightarrow> (bool option \<times> world) option" where
  "series_story E stitle series w =
     (case make_request_with_retry E series 3 w of
        (sr, w1) \<Rightarrow>
          (case sr of
             None \<Rightarrow> Some (None, w1)
           | Some soup_series \<Rightarrow>
               (let st = (case select_one soup_series ''h1'' of
                            Some st_el \<Rightarrow> get_text_strip st_el | None \<Rightarrow> stitle);
                    safe = sanitize_filename st;
                    path = pdf_path E safe
                in if path \<in> files w1 then Some (Some True, w1)
                   else
                     (let ch_links = series_chapters E soup_series st ch_sels []
                      in if ch_links \<noteq> [] then
                           (case series_body E (sort_chapters ch_links) [] 1 w1 of
                              None \<Rightarrow> None
                            | Some (allc, w2) \<Rightarrow>
                                if allc \<noteq> [] then
                                  (case create_pdf E st allc safe w2 of
                                     (ok, w3) \<Rightarrow>
                                       if ok then Some (Some True, w3) else Some (None, w3))
                                else Some (None, w2))
                         else Some (None, w1)))))"

text \<open>The single story mode (lines 194 to 223).\<close>

definition single_story :: "env \<Rightarrow> string \<Rightarrow> string \<Rightarrow> world \<Rightarrow> (bool \<times> world) option" where
  "single_story E stitle surl w =
     (case make_request_with_retry E surl 3 w of
        (r, w1) \<Rightarrow>
          (case r of
             None \<Rightarrow> Some (False, w1)
           | Some sp \<Rightarrow>
               (case extract_story_content E sp surl of
                  (t, pp, ch_links, ser) \<Rightarrow>
                    (let ft = (if t \<noteq> [] then t else stitle);
                         safe = sanitize_filename ft;
                         path = pdf_path E safe
                     in if path \<in> files w1 then Some (True, w1)
                        else
                          (case story_walk E surl pp ch_links [surl] {} 1 [] w1 of
                             None \<Rightarrow> None
                           | Some (done, part, allc, w2) \<Rightarrow>
                               if allc \<noteq> [] then Some (create_pdf E ft allc safe w2)
                               else Some (False, w2))))))"

definition scrape_story ::
    "env \<Rightarrow> string \<Rightarrow> string \<Rightarrow> bool \<Rightarrow> world \<Rightarrow> (bool \<times> world) option" where
  "scrape_story E stitle surl full_series w =
     (case (if full_series then find_series_link_from_all_pages E surl w else Some (None, w)) of
        None \<Rightarrow> None
      | Some (series, w0) \<Rightarrow>
          (case series of
             None \<Rightarrow> single_story E stitle surl w0
           | Some s \<Rightarrow>
               if full_series \<and> s \<noteq> [] then
                 (case series_story E stitle s w0 of
                    None \<Rightarrow> None
                  | Some (ret, w1) \<Rightarrow>
                      (case ret of
                         Some b \<Rightarrow> Some (b, w1)
                       | None \<Rightarrow> single_story E stitle surl w1))
               else single_story E stitle surl w0))"

section \<open>A category\<close>









definition scrape_single_story :: "env \<Rightarrow> world \<Rightarrow> (bool \<times> world) option" where
  "scrape_single_story E w = scrape_story E ''Unknown'' (base_url E) True w"

text \<open>
  The text of a run of fetched pages, given the paragraphs of each page in the order
  the pages arrived and the part number \<open>k\<close> of the first of them: a page without
  paragraphs adds nothing, a page with paragraphs adds them after a part marker when its
  number is beyond 1, and every page takes one number.
\<close>

fun number_parts :: "int \<Rightarrow> string list list \<Rightarrow> string list" where
  "number_parts k [] = []"
| "number_parts k (pp # pps) =
     (if pp = [] then [] else (if k > 1 then [''PART '' @ str_int k] else []) @ pp)
     @ number_parts (k + 1) pps"

section \<open>Example sites\<close>

text \<open>
  Small concrete environments, on which the functions above are run.  Their links are
  absolute, for which \<^verbatim>\<open>urljoin\<close> returns the link itself, and their servers answer a
  url the same way at every time.
\<close>

definition no_page :: soup where
  "no_page = \<lparr>select = (\<lambda>s. []), find_all = (\<lambda>s. [])\<rparr>"

definition site :: "(string \<Rightarrow> string + soup) \<Rightarrow> env" where
  "site pages =
     \<lparr>base_url = ''https://example.com/c/stories'', downloads_folder = ''downloads'',
      http_get = (\<lambda>h. pages), hostname = (\<lambda>u. Some ''example.com''),
      urljoin = (\<lambda>b h. h), paragraph_ok = (\<lambda>text st. True),
      build_pdf = (\<lambda>fp story. True)\<rparr>"

definition w0 :: world where
  "w0 = \<lparr>events = [], files = {}\<rparr>"

definition down_site :: env where
  "down_site = site (\<lambda>u. Inl ''timeout'')"

definition reddit_site :: env where
  "reddit_site = (site (\<lambda>u. Inr no_page))\<lparr>hostname := (\<lambda>u. Some ''www.reddit.com'')\<rparr>"

definition para :: "string \<Rightarrow> element" where
  "para t = Element t t None []"

definition link :: "string \<Rightarrow> string \<Rightarrow> element" where
  "link t h = Element t t (Some h) []"

text \<open>
  A story page with a heading, paragraphs in the story text block and next links whose
  targets name a chapter.
\<close>

definition story_page :: "string \<Rightarrow> string list \<Rightarrow> element list \<Rightarrow> soup" where
  \<open>story_page title paras nexts =
     \<lparr>select = (\<lambda>s. if s = ''h1'' then [para title]
                     else if s = ''div.story-text p'' then map para paras
                     else if s = ''a[href*="chapter"]'' then nexts
                     else []),
      find_all = (\<lambda>s. if s = ''p'' then map para paras else [])\<rparr>\<close>

definition url_a :: string where
  "url_a = ''https://example.com/s/tale''"

definition url_b :: string where
  "url_b = ''https://example.com/s/tale?chapter=2''"

definition url_c :: string where
  "url_c = ''https://example.com/s/tale?chapter=3''"

text \<open>
  A story of three pages.  The first page links to the other two; the server fails on
  the second at every request.
\<close>

definition gap_page_a :: soup where
  "gap_page_a =
     story_page ''The Tale'' [''It was a dark night.'', ''The rain fell hard.'']
       [link ''2'' url_b, link ''3'' url_c]"

definition gap_page_c :: soup where
  "gap_page_c = story_page ''The Tale'' [''Morning came at last.'', ''The road was dry.''] []"

definition gap_site :: env where
  "gap_site =
     site (\<lambda>u. if u = url_a then Inr gap_page_a
                else if u = url_c then Inr gap_page_c
                else Inl ''503'')"

definition failed_fetch :: "string \<Rightarrow> string \<Rightarrow> event list" where
  "failed_fetch u e =
     [Sleep 0, Get 0 u, Warning u 1 e, Sleep 1, Get 1 u, Warning u 2 e,
      Sleep 2, Get 2 u, Warning u 3 e, Sleep 3, Get 3 u, Error u 4 e]"

text \<open>Two pages whose next links point at each other.\<close>

definition cycle_site :: env where
  "cycle_site =
     site (\<lambda>u. if u = url_a then Inr (story_page ''The Tale'' [] [link ''Next'' url_b])
                else if u = url_b then Inr (story_page ''The Tale'' [] [link ''Next'' url_a])
                else Inl ''404'')"

text \<open>
  A site that answers every url with a page whose next link is the url with one more
  digit: chapter 1 links to chapter 10, that to chapter 100, and so on.
\<close>

definition chain_page :: "string \<Rightarrow> soup" where
  "chain_page u = story_page ''The Tale'' [] [link ''Next'' (u @ ''0'')]"

definition chain_site :: env where
  "chain_site = site (\<lambda>u. Inr (chain_page u))"

definition chain_seed :: string where
  "chain_seed = ''https://example.com/s/tale?chapter=1''"












text \<open>
  Two renderers.  The first accepts every paragraph and builds exactly one document;
  the second, like reportlab, refuses a paragraph whose markup opens a tag and does not
  close it.
\<close>

definition exact_renderer :: env where
  "exact_renderer =
     (site (\<lambda>u. Inl ''404''))
       \<lparr>build_pdf := (\<lambda>fp story. fp = ''downloads/T.pdf'' \<and> story =
          [Paragraph ''T'' Title, Spacer 1 12,
           Paragraph ''PART <b>2</b>'' Heading2, Spacer 1 12,
           Paragraph ''Chapter 1: <i>Dawn</i>'' Heading1, Spacer 1 24,
           Paragraph ''a &lt; b &amp; c &gt; d'' Normal, Spacer 1 6])\<rparr>"

definition strict_renderer :: env where
  "strict_renderer =
     (site (\<lambda>u. Inl ''404''))\<lparr>paragraph_ok := (\<lambda>text st. text \<noteq> ''PART <b> & co'')\<rparr>"

text \<open>
  A page with four anchors in its navigation: a link back to page 1, a link to chapter
  2, a link to page 3 labelled with its number between no-break spaces, and a
  \<^verbatim>\<open>Next\<close> button that carries no \<^verbatim>\<open>href\<close>.
\<close>

definition prev_anchor :: element where
  "prev_anchor = Element ''Previous'' ''Previous'' (Some ''https://example.com/s/tale?page=1'') []"

definition chapter2_anchor :: element where
  "chapter2_anchor =
     Element ''Chapter 2'' ''Chapter 2'' (Some ''https://example.com/s/tale/chapter/2'') []"

definition page3_anchor :: element where
  "page3_anchor =
     Element (CHR 0xA0 # ''3'' @ [CHR 0xA0]) ''3'' (Some ''https://example.com/s/tale?page=3'') []"

definition button_anchor :: element where
  "button_anchor = Element ''Next'' ''Next'' None []"

definition nav_page :: soup where
  \<open>nav_page =
     \<lparr>select = (\<lambda>s. if s = ''a[href*="chapter"]'' then [chapter2_anchor]
                     else if s = ''a[href*="page"]'' then [prev_anchor, page3_anchor]
                     else if s = ''.next-chapter a'' then [button_anchor]
                     else []),
      find_all = (\<lambda>s. [])\<rparr>\<close>

text \<open>
  A series page that lists four works, none of them numbered but the second, whose
  number follows a no-break space.
\<close>

definition series_page :: soup where
  \<open>series_page =
     \<lparr>select = (\<lambda>s. if s = ''div.sl-list a[href*="/s/"]'' then
                       [Element ''Side Story'' ''Side Story'' (Some ''https://example.com/s/side'') [],
                        Element (''My Story Ch.'' @ [CHR 0xA0] @ ''02'')
                          (''My Story Ch.'' @ [CHR 0xA0] @ ''02'')
                          (Some ''https://example.com/s/my-story-ch-02'') [],
                        Element ''Bonus'' ''Bonus'' (Some ''https://example.com/s/bonus'') [],
                        Element ''My Story'' ''My Story'' (Some ''https://example.com/s/my-story'') []]
                     else []),
      find_all = (\<lambda>s. [])\<rparr>\<close>

section \<open>The words of the specification\<close>


text \<open>
  An anchor qualifies as a next link, in the words of the specification, when its
  visible text contains \<^verbatim>\<open>next\<close> in any case, or its target contains a chapter or page
  indicator, or its visible text is purely numeric.
\<close>

definition spec_next_link :: "element \<Rightarrow> bool" where
  "spec_next_link l =
     (contains ''next'' (lower (get_text l))
      \<or> contains ''chapter'' (lower (href_or_empty l))
      \<or> contains ''page'' (lower (href_or_empty l))
      \<or> isdigit (strip (get_text l)))"

text \<open>What the source asks of such an anchor (line 97).\<close>

definition next_ok :: "element \<Rightarrow> bool" where
  "next_ok l =
     (href_or_empty l \<noteq> []
      \<and> (contains ''next'' (lower (get_text l))
         \<or> contains ''chapter'' (lower (href_or_empty l))
         \<or> isdigit (strip (get_text l))))"

text \<open>
  A chapter or part token with the number \<open>d\<close> at the head of \<open>s\<close>: the letters
  \<^verbatim>\<open>ch\<close> or \<^verbatim>\<open>pt\<close> in any case, at most one dot, any white space, and then the
  digits \<open>d\<close>, at least one and as many as there are.
\<close>

definition chapter_token :: "string \<Rightarrow> string \<Rightarrow> bool" where
  "chapter_token s d =
     (\<exists>tok dot ws rest.
        s = tok @ dot @ ws @ d @ rest
        \<and> (lower tok = ''ch'' \<or> lower tok = ''pt'')
        \<and> (dot = [] \<or> dot = ''.'')
        \<and> list_all is_space ws
        \<and> d \<noteq> [] \<and> list_all is_decimal d
        \<and> (case rest of [] \<Rightarrow> True | c # cs \<Rightarrow> \<not> is_decimal c))"

text \<open>The first token of a label: no token begins further to the left.\<close>

definition first_token :: "string \<Rightarrow> string \<Rightarrow> bool" where
  "first_token label d =
     (\<exists>pre s. label = pre @ s \<and> chapter_token s d
        \<and> \<not> (\<exists>pre' s' d'. label = pre' @ s' \<and> length pre' < length pre
                              \<and> chapter_token s' d'))"

text \<open>
  The order key of a chapter label, in the words of the specification: the number of a
  chapter or part token if there is one; else 1 if the label equals the series title
  after trimming, whatever the case of the letters; else 999.
\<close>

definition spec_order :: "string \<Rightarrow> string \<Rightarrow> int" where
  "spec_order label title =
     (case search_chapter label of
        Some d \<Rightarrow> int_of_digits d
      | None \<Rightarrow> if lower (strip label) = lower (strip title) then 1 else 999)"

text \<open>
  One character of a paragraph as the renderer escapes it, and whether reportlab makes
  a flowable without raising.
\<close>

definition escape_char :: "char \<Rightarrow> string" where
  "escape_char c =
     (if c = CHR ''&'' then ''&amp;''
      else if c = CHR ''<'' then ''&lt;''
      else if c = CHR ''>'' then ''&gt;''
      else [c])"

fun flowable_ok :: "env \<Rightarrow> flowable \<Rightarrow> bool" where
  "flowable_ok E (Paragraph text st) = paragraph_ok E text st"
| "flowable_ok E (Spacer a b) = True"

text \<open>The anchors of a series page that become chapters (lines 160 and 161).\<close>

definition chapter_anchor :: "element \<Rightarrow> bool" where
  "chapter_anchor e = (href_or_empty e \<noteq> [] \<and> contains ''/s/'' (href_or_empty e))"

definition chapter_ref :: "env \<Rightarrow> string \<Rightarrow> element \<Rightarrow> string \<times> string \<times> int" where
  "chapter_ref E st e =
     (get_text_strip e,
      if startswith (href_or_empty e) ''http'' then href_or_empty e
      else urljoin E (base_url E) (href_or_empty e),
      chapter_order (get_text_strip e) st)"

section \<open>Properties of the fetcher\<close>

lemmas char_eval = lower_def lower_char_def char_of_def bit_Suc_0_iff

lemma events_emit [simp]: "events (emit e w) = events w @ [e]"
  by (simp add: emit_def)

lemma files_emit [simp]: "files (emit e w) = files w"
  by (simp add: emit_def)

lemma startswith_iff: "startswith s p \<longleftrightarrow> (\<exists>q. s = p @ q)"
  unfolding startswith_def
  by (metis append_eq_conv_conj append_take_drop_id)

lemma contains_iff: "contains sub s \<longleftrightarrow> (\<exists>p q. s = p @ sub @ q)"
proof (induction s)
  case Nil
  then show ?case by auto
next
  case (Cons c cs)
  show ?case
  proof
    assume "contains sub (c # cs)"
    then consider "startswith (c # cs) sub" | "contains sub cs" by auto
    then show "\<exists>p q. c # cs = p @ sub @ q"
    proof cases
      case 1
      then obtain q where "c # cs = sub @ q" by (auto simp: startswith_iff)
      then have "c # cs = [] @ sub @ q" by simp
      then show ?thesis by blast
    next
      case 2
      then obtain p q where "cs = p @ sub @ q" using Cons.IH by auto
      then have "c # cs = (c # p) @ sub @ q" by simp
      then show ?thesis by blast
    qed
  next
    assume "\<exists>p q. c # cs = p @ sub @ q"
    then obtain p q where pq: "c # cs = p @ sub @ q" by auto
    show "contains sub (c # cs)"
    proof (cases p)
      case Nil
      then have "startswith (c # cs) sub" using pq startswith_iff by auto
      then show ?thesis by simp
    next
      case (Cons a p')
      then have "cs = p' @ sub @ q" using pq by simp
      then show ?thesis using Cons.IH by auto
    qed
  qed
qed

lemma is_blocked_iff:
  "list_ex (\<lambda>k. contains k h) blocked \<longleftrightarrow> (\<exists>k\<in>set blocked. \<exists>p q. h = p @ k @ q)"
  by (simp add: list_ex_iff contains_iff)

lemma attempts_events:
  "\<exists>new. events (snd (attempts E url m as w)) = events w @ new
       \<and> files (snd (attempts E url m as w)) = files w
       \<and> length (filter is_get new) \<le> length as"
proof (induction as arbitrary: w)
  case Nil
  then show ?case by simp
next
  case (Cons a as)
  let ?w1 = "emit (Sleep a) w"
  let ?w2 = "emit (Get a url) ?w1"
  show ?case
  proof (cases "http_get E (events ?w1) url")
    case (Inr r)
    then show ?thesis by (simp add: Let_def)
  next
    case (Inl e)
    show ?thesis
    proof (cases "a = m")
      case True
      then show ?thesis using Inl by (simp add: Let_def)
    next
      case False
      let ?w3 = "emit (Warning url (a + 1) e) ?w2"
      from Cons.IH [of ?w3] obtain new where
        n: "events (snd (attempts E url m as ?w3)) = events ?w3 @ new"
           "files (snd (attempts E url m as ?w3)) = files ?w3"
           "length (filter is_get new) \<le> length as" by blast
      have "attempts E url m (a # as) w = attempts E url m as ?w3"
        using Inl False by (simp add: Let_def)
      then show ?thesis using n
        by (intro exI [of _ "[Sleep a, Get a url, Warning url (a + 1) e] @ new"]) simp
    qed
  qed
qed

lemma attempts_all_fail:
  assumes "\<And>h. isl (http_get E h url)" and "m \<notin> set as"
  shows "\<exists>new. attempts E url m (as @ bs) w = attempts E url m bs (w\<lparr>events := events w @ new\<rparr>)
       \<and> length (filter is_get new) = length as \<and> (\<forall>x\<in>set new. \<not> is_error x)"
  using assms(2)
proof (induction as arbitrary: w)
  case Nil
  show ?case by (intro exI [of _ "[]"]) simp
next
  case (Cons a as)
  let ?w1 = "emit (Sleep a) w"
  let ?w2 = "emit (Get a url) ?w1"
  from assms(1) [of "events ?w1"] obtain e where e: "http_get E (events ?w1) url = Inl e"
    by (cases "http_get E (events ?w1) url") auto
  let ?w3 = "emit (Warning url (a + 1) e) ?w2"
  from Cons have am: "a \<noteq> m" "m \<notin> set as" by auto
  from Cons.IH [OF am(2), of ?w3] obtain new where
    n: "attempts E url m (as @ bs) ?w3 = attempts E url m bs (?w3\<lparr>events := events ?w3 @ new\<rparr>)"
       "length (filter is_get new) = length as" "\<forall>x\<in>set new. \<not> is_error x" by blast
  have "attempts E url m ((a # as) @ bs) w = attempts E url m (as @ bs) ?w3"
    using e am by (simp add: Let_def)
  moreover have "?w3\<lparr>events := events ?w3 @ new\<rparr>
      = w\<lparr>events := events w @ ([Sleep a, Get a url, Warning url (a + 1) e] @ new)\<rparr>"
    by (simp add: emit_def)
  ultimately show ?case using n
    by (intro exI [of _ "[Sleep a, Get a url, Warning url (a + 1) e] @ new"]) (simp add: emit_def)
qed

lemma attempts_exhausted:
  assumes fail: "\<And>h. isl (http_get E h url)" and m: "0 \<le> m"
  shows "\<exists>pre e. attempts E url m [0..m] w
            = (None, w\<lparr>events := events w @ pre @ [Sleep m, Get m url, Error url (m + 1) e]\<rparr>)
          \<and> http_get E (events w @ pre @ [Sleep m]) url = Inl e
          \<and> length (filter is_get pre) = nat m
          \<and> (\<forall>x\<in>set pre. \<not> is_error x)"
proof -
  have split: "[0..m] = [0..m - 1] @ [m]" using m by (rule upto_rec2)
  have notin: "m \<notin> set [0..m - 1]" by simp
  from attempts_all_fail [OF fail notin, of "[m]" w] obtain pre where
    p: "attempts E url m ([0..m - 1] @ [m]) w = attempts E url m [m] (w\<lparr>events := events w @ pre\<rparr>)"
       "length (filter is_get pre) = length [0..m - 1]" "\<forall>x\<in>set pre. \<not> is_error x" by blast
  let ?w' = "w\<lparr>events := events w @ pre\<rparr>"
  from fail [of "events (emit (Sleep m) ?w')"] obtain e where
    e: "http_get E (events (emit (Sleep m) ?w')) url = Inl e"
    by (cases "http_get E (events (emit (Sleep m) ?w')) url") auto
  have "attempts E url m [m] ?w'
      = (None, w\<lparr>events := events w @ pre @ [Sleep m, Get m url, Error url (m + 1) e]\<rparr>)"
    using e by (simp add: Let_def emit_def)
  moreover have "http_get E (events w @ pre @ [Sleep m]) url = Inl e"
    using e by simp
  moreover have "length (filter is_get pre) = nat m" using p(2) m by simp
  ultimately show ?thesis using p split by (intro exI [of _ pre] exI [of _ e]) simp
qed

text \<open>
  C4.  When the host of a url contains one of the substrings of the blocklist, the
  fetcher returns its failure value \<^verbatim>\<open>None\<close> at once and leaves the world as it
  was: no sleep, no request, no log line.
\<close>

theorem blocked_host_no_network:
  assumes "k \<in> set blocked" and "url_host E url = p @ k @ q"
  shows "make_request_with_retry E url max_retries w = (None, w)"
proof -
  have "list_ex (\<lambda>k. contains k (url_host E url)) blocked"
    using assms unfolding is_blocked_iff by blast
  then show ?thesis by (simp add: make_request_with_retry_def)
qed

text \<open>
  C5.  For a url that is not blocked and a retry count that is not negative, a fetch
  issues at most \<open>max_retries + 1\<close> requests.  If every request fails, it issues
  exactly \<open>max_retries + 1\<close> of them and returns the failure value \<^verbatim>\<open>None\<close>; its
  last act is the one error line, which carries the error of the last request, and the
  earlier failures appear as warnings only.
\<close>

theorem fetch_attempts_bounded:
  assumes nb: "\<forall>k\<in>set blocked. \<forall>p q. url_host E url \<noteq> p @ k @ q"
      and m: "0 \<le> max_retries"
  shows "\<exists>new. events (snd (make_request_with_retry E url max_retries w)) = events w @ new
           \<and> length (filter is_get new) \<le> nat (max_retries + 1)
           \<and> ((\<forall>h. isl (http_get E h url)) \<longrightarrow>
                fst (make_request_with_retry E url max_retries w) = None
              \<and> length (filter is_get new) = nat (max_retries + 1)
              \<and> (\<exists>pre e. new = pre @ [Sleep max_retries, Get max_retries url,
                                         Error url (max_retries + 1) e]
                    \<and> http_get E (events w @ pre @ [Sleep max_retries]) url = Inl e
                    \<and> (\<forall>x\<in>set pre. \<not> is_error x)))"
proof -
  have nbl: "\<not> list_ex (\<lambda>k. contains k (url_host E url)) blocked"
    using nb unfolding is_blocked_iff by blast
  then have mr: "make_request_with_retry E url max_retries w
      = attempts E url max_retries [0..max_retries] w"
    by (simp add: make_request_with_retry_def)
  have len: "length [0..max_retries] = nat (max_retries + 1)" by simp
  show ?thesis
  proof (cases "\<forall>h. isl (http_get E h url)")
    case False
    from attempts_events [of E url max_retries "[0..max_retries]" w] obtain new where
      "events (snd (attempts E url max_retries [0..max_retries] w)) = events w @ new"
      "length (filter is_get new) \<le> length [0..max_retries]" by blast
    then show ?thesis using False mr len by (intro exI [of _ new]) auto
  next
    case True
    then have fail: "\<And>h. isl (http_get E h url)" by blast
    from attempts_exhausted [OF fail m, of w] obtain pre e where
      r: "attempts E url max_retries [0..max_retries] w
            = (None, w\<lparr>events := events w @ pre
                 @ [Sleep max_retries, Get max_retries url, Error url (max_retries + 1) e]\<rparr>)"
         "http_get E (events w @ pre @ [Sleep max_retries]) url = Inl e"
         "length (filter is_get pre) = nat max_retries"
         "\<forall>x\<in>set pre. \<not> is_error x" by blast
    have "nat max_retries + 1 = nat (max_retries + 1)" using m by simp
    then show ?thesis using r mr
      by (intro exI [of _ "pre @ [Sleep max_retries, Get max_retries url,
                                   Error url (max_retries + 1) e]"]) auto
  qed
qed


theorem blocked_host_no_network_witness:
  "''reddit'' \<in> set blocked
   \<and> url_host reddit_site ''https://www.reddit.com/r/all'' = ''www.'' @ ''reddit'' @ ''.com''
   \<and> make_request_with_retry reddit_site ''https://www.reddit.com/r/all'' 3 w0 = (None, w0)"
proof -
  have k: "''reddit'' \<in> set blocked" by (simp add: blocked_def)
  have h: "url_host reddit_site ''https://www.reddit.com/r/all'' = ''www.'' @ ''reddit'' @ ''.com''"
    by (simp add: url_host_def reddit_site_def site_def char_eval)
  show ?thesis using k h blocked_host_no_network [OF k h, of 3 w0] by simp
qed

theorem fetch_attempts_bounded_witness:
  "fst (make_request_with_retry down_site ''https://example.com/s/a'' 3 w0) = None
   \<and> length (filter is_get
        (events (snd (make_request_with_retry down_site ''https://example.com/s/a'' 3 w0)))) = 4
   \<and> last (events (snd (make_request_with_retry down_site ''https://example.com/s/a'' 3 w0)))
       = Error ''https://example.com/s/a'' 4 ''timeout''"
proof -
  have "\<not> list_ex (\<lambda>k. contains k (url_host down_site ''https://example.com/s/a'')) blocked"
    by (simp add: blocked_def url_host_def down_site_def site_def char_eval
                  startswith_def)
  then have nb: "\<forall>k\<in>set blocked. \<forall>p q. url_host down_site ''https://example.com/s/a'' \<noteq> p @ k @ q"
    unfolding is_blocked_iff by blast
  have m: "(0::int) \<le> 3" by simp
  have fail: "\<forall>h. isl (http_get down_site h ''https://example.com/s/a'')"
    by (simp add: down_site_def site_def)
  from fetch_attempts_bounded [OF nb m, of w0] fail show ?thesis
    by (auto simp: w0_def down_site_def site_def)
qed

section \<open>Properties of the renderer and the extractor\<close>

lemma replace_char_append:
  "replace_char c r (xs @ ys) = replace_char c r xs @ replace_char c r ys"
  by (simp add: replace_char_def)

lemma escape_chars: "escape item = concat (map escape_char item)"
proof (induction item)
  case Nil
  show ?case by (simp add: escape_def replace_char_def)
next
  case (Cons c item)
  have "escape (c # item) = escape [c] @ escape item"
    by (simp add: escape_def replace_char_def)
  moreover have "escape [c] = escape_char c"
    by (simp add: escape_def replace_char_def escape_char_def)
  ultimately show ?case using Cons.IH by simp
qed

lemma add_item_blocks:
  "add_item E story item =
     (let blocks =
        (if startswith item ''Chapter '' then [Paragraph item Heading1, Spacer 1 24]
         else if startswith item ''PART '' then [Paragraph item Heading2, Spacer 1 12]
         else if strip item \<noteq> [] then
           [Paragraph (concat (map escape_char item)) Normal, Spacer 1 6]
         else [])
      in if list_all (flowable_ok E) blocks then Some (story @ blocks) else None)"
  by (simp add: add_item_def make_paragraph_def escape_chars Let_def)

lemma add_items_blocks:
  "add_items E story paras =
     (let blocks = concat (map (\<lambda>item.
        if startswith item ''Chapter '' then [Paragraph item Heading1, Spacer 1 24]
        else if startswith item ''PART '' then [Paragraph item Heading2, Spacer 1 12]
        else if strip item \<noteq> [] then
          [Paragraph (concat (map escape_char item)) Normal, Spacer 1 6]
        else []) paras)
      in if list_all (flowable_ok E) blocks then Some (story @ blocks) else None)"
proof (induction paras arbitrary: story)
  case Nil
  show ?case by simp
next
  case (Cons item paras)
  show ?case
    unfolding add_items.simps add_item_blocks Cons.IH
    by (simp add: Let_def)
qed

text \<open>
  C10.  \<^verbatim>\<open>create_pdf\<close> turns every item into blocks by its first characters alone: an
  item that starts with \<^verbatim>\<open>Chapter \<close> becomes a first-level heading and one that
  starts with \<^verbatim>\<open>PART \<close> a second-level heading, both with their text as it is;
  only the other items become paragraphs, with every \<^verbatim>\<open>&\<close>, \<^verbatim>\<open><\<close> and \<^verbatim>\<open>>\<close>
  replaced by its entity, and an item of white space alone is dropped.  The document
  is written, and the result is \<^verbatim>\<open>True\<close>, exactly when reportlab accepts every one of
  these blocks and builds them; so an unescaped heading that is not well-formed markup
  makes the whole document fail.
\<close>

theorem create_pdf_blocks:
  "create_pdf E title paras filename w =
     (let story = [Paragraph title Title, Spacer 1 12] @ concat (map (\<lambda>item.
        if startswith item ''Chapter '' then [Paragraph item Heading1, Spacer 1 24]
        else if startswith item ''PART '' then [Paragraph item Heading2, Spacer 1 12]
        else if strip item \<noteq> [] then
          [Paragraph (concat (map (\<lambda>c.
              if c = CHR ''&'' then ''&amp;''
              else if c = CHR ''<'' then ''&lt;''
              else if c = CHR ''>'' then ''&gt;''
              else [c]) item)) Normal, Spacer 1 6]
        else []) paras)
      in if list_all (flowable_ok E) story \<and> build_pdf E (pdf_path E filename) story
         then (True, w\<lparr>files := insert (pdf_path E filename) (files w)\<rparr>)
         else (False, w))"
proof -
  have esc: "(\<lambda>c. if c = CHR ''&'' then ''&amp;''
              else if c = CHR ''<'' then ''&lt;''
              else if c = CHR ''>'' then ''&gt;''
              else [c]) = escape_char"
    by (rule ext) (simp add: escape_char_def)
  show ?thesis
    unfolding esc create_pdf_def add_items_blocks
    by (simp add: make_paragraph_def Let_def)
qed

theorem create_pdf_blocks_witness:
  "create_pdf exact_renderer ''T''
       [''PART <b>2</b>'', ''Chapter 1: <i>Dawn</i>'', ''a < b & c > d'', [CHR 0xA0, CHR '' '']]
       ''T'' w0
     = (True, w0\<lparr>files := insert ''downloads/T.pdf'' (files w0)\<rparr>)
   \<and> create_pdf strict_renderer ''T'' [''PART <b> & co'', ''a < b''] ''T'' w0 = (False, w0)"
proof -
  have path: "pdf_path exact_renderer ''T'' = ''downloads/T.pdf''"
    by (simp add: pdf_path_def os_path_join_def startswith_def exact_renderer_def site_def)
  have "create_pdf exact_renderer ''T''
       [''PART <b>2</b>'', ''Chapter 1: <i>Dawn</i>'', ''a < b & c > d'', [CHR 0xA0, CHR '' '']]
       ''T'' w0
     = (True, w0\<lparr>files := insert ''downloads/T.pdf'' (files w0)\<rparr>)"
    unfolding create_pdf_blocks path
    by (simp add: startswith_def strip_def is_space_def exact_renderer_def site_def)
  moreover have "create_pdf strict_renderer ''T'' [''PART <b> & co'', ''a < b''] ''T'' w0
     = (False, w0)"
    unfolding create_pdf_blocks
    by (simp add: startswith_def strip_def is_space_def strict_renderer_def site_def)
  ultimately show ?thesis by simp
qed

subsection \<open>Paragraphs\<close>






subsection \<open>Next links\<close>

lemma add_next_ok:
  "add_next E u acc l = (if next_ok l then acc @ [urljoin E u (href_or_empty l)] else acc)"
  by (auto simp: add_next_def next_ok_def href_or_empty_def split: option.splits)

lemma foldl_add_next:
  "foldl (add_next E u) acc ls = acc @ map (\<lambda>l. urljoin E u (href_or_empty l)) (filter next_ok ls)"
  by (induction ls arbitrary: acc) (simp_all add: add_next_ok)

lemma foldl_next_sels:
  "foldl (\<lambda>ch_links s. foldl (add_next E u) ch_links (select sp s)) acc sels =
     acc @ concat (map (\<lambda>s. map (\<lambda>l. urljoin E u (href_or_empty l))
                               (filter next_ok (select sp s))) sels)"
  by (induction sels arbitrary: acc) (simp_all add: foldl_add_next)

text \<open>
  C8, as the source has it.  An anchor found by a next-link selector is returned when it
  has a non-empty \<^verbatim>\<open>href\<close> and its text contains \<^verbatim>\<open>next\<close> in any case, or its
  \<^verbatim>\<open>href\<close> contains \<^verbatim>\<open>chapter\<close> in any case, or its trimmed text is all digits.
  The returned urls are resolved against the url of the page and listed selector by
  selector, in document order within a selector and without removing duplicates.
\<close>

theorem extract_nexts_by_strategy:
  "fst (snd (snd (extract_story_content E sp story_url))) =
     concat (map (\<lambda>s. map (\<lambda>l. urljoin E story_url (href_or_empty l))
                           (filter next_ok (select sp s))) n_sels)"
  by (simp add: extract_story_content_def extract_nexts_def foldl_next_sels)

text \<open>
  C8 as it is written fails on the navigation page: the link back to page 1 has a page
  indicator in its target and the button reads \<^verbatim>\<open>Next\<close>, both are found by a
  selector, and neither is returned.
\<close>

theorem extract_nexts_counterexample:
  \<open>prev_anchor \<in> set (select nav_page ''a[href*="page"]'')
   \<and> spec_next_link prev_anchor
   \<and> button_anchor \<in> set (select nav_page ''.next-chapter a'')
   \<and> spec_next_link button_anchor
   \<and> fst (snd (snd (extract_story_content (site (\<lambda>u. Inr nav_page)) nav_page
                      ''https://example.com/s/tale'')))
       = [''https://example.com/s/tale/chapter/2'', ''https://example.com/s/tale?page=3'']\<close>
  by (simp add: nav_page_def prev_anchor_def button_anchor_def chapter2_anchor_def
                page3_anchor_def spec_next_link_def extract_story_content_def extract_nexts_def
                n_sels_def add_next_def site_def href_or_empty_def char_eval
                startswith_def isdigit_def is_digit_def is_decimal_def strip_def is_space_def)

theorem extract_nexts_by_strategy_witness:
  "fst (snd (snd (extract_story_content (site (\<lambda>u. Inr nav_page)) nav_page
                    ''https://example.com/s/tale'')))
     = [''https://example.com/s/tale/chapter/2'', ''https://example.com/s/tale?page=3'']"
proof -
  have "concat (map (\<lambda>s. map (\<lambda>l. urljoin (site (\<lambda>u. Inr nav_page)) ''https://example.com/s/tale''
                                   (href_or_empty l))
                           (filter next_ok (select nav_page s))) n_sels)
     = [''https://example.com/s/tale/chapter/2'', ''https://example.com/s/tale?page=3'']"
    by (simp add: nav_page_def prev_anchor_def button_anchor_def chapter2_anchor_def
                  page3_anchor_def n_sels_def next_ok_def site_def href_or_empty_def char_eval startswith_def isdigit_def is_digit_def is_decimal_def strip_def is_space_def)
  then show ?thesis
    using extract_nexts_by_strategy [of "site (\<lambda>u. Inr nav_page)" nav_page
            "''https://example.com/s/tale''"] by simp
qed

subsection \<open>Chapter order\<close>

lemma add_chapter_ref:
  "add_chapter E st acc e = (if chapter_anchor e then acc @ [chapter_ref E st e] else acc)"
  by (auto simp: add_chapter_def chapter_anchor_def chapter_ref_def href_or_empty_def Let_def
           split: option.splits)

lemma foldl_add_chapter:
  "foldl (add_chapter E st) acc es = acc @ map (chapter_ref E st) (filter chapter_anchor es)"
  by (induction es arbitrary: acc) (simp_all add: add_chapter_ref)

lemma series_chapters_find:
  "series_chapters E sp st sels [] =
     (case find (\<lambda>s. filter chapter_anchor (select sp s) \<noteq> []) sels of
        Some s \<Rightarrow> map (chapter_ref E st) (filter chapter_anchor (select sp s))
      | None \<Rightarrow> [])"
proof (induction sels)
  case Nil
  then show ?case by simp
next
  case (Cons s sels)
  show ?case
  proof (cases "filter chapter_anchor (select sp s) = []")
    case True
    then show ?thesis using Cons.IH by (auto simp: Let_def foldl_add_chapter)
  next
    case False
    then have "select sp s \<noteq> []" by auto
    then show ?thesis using False by (auto simp: Let_def foldl_add_chapter)
  qed
qed

lemma decimal_not_space: "is_decimal c \<Longrightarrow> \<not> is_space c"
  by (auto simp: is_decimal_def is_space_def Let_def)

lemma dot_not_class: "\<not> is_space CHR ''.''" "\<not> is_decimal CHR ''.''"
  by (simp_all add: is_space_def is_decimal_def)

lemma lower_two: "lower tok = [a, b] \<Longrightarrow> length tok = 2"
proof -
  assume a: "lower tok = [a, b]"
  have "length (lower tok) = length tok" by (simp add: lower_def)
  then show ?thesis using a by simp
qed

lemma dropWhile_head: "(case dropWhile P xs of [] \<Rightarrow> True | c # cs \<Rightarrow> \<not> P c)"
  by (induction xs) simp_all

lemma match_token_iff: "match_chapter_at s = Some d \<longleftrightarrow> chapter_token s d"
proof
  assume m: "match_chapter_at s = Some d"
  let ?r1 = "drop 2 s"
  let ?dot = "if startswith ?r1 ''.'' then ''.'' else []"
  let ?r2 = "if startswith ?r1 ''.'' then drop 1 ?r1 else ?r1"
  let ?ws = "takeWhile is_space ?r2"
  let ?r3 = "dropWhile is_space ?r2"
  let ?rest = "dropWhile is_decimal ?r3"
  from m have tok: "lower (take 2 s) = ''ch'' \<or> lower (take 2 s) = ''pt''"
    by (auto simp: match_chapter_at_def Let_def split: if_splits)
  from m have d: "d = takeWhile is_decimal ?r3" "d \<noteq> []"
    by (auto simp: match_chapter_at_def Let_def split: if_splits)
  have r1: "?r1 = ?dot @ ?r2"
  proof (cases "startswith ?r1 ''.''")
    case True
    then have "take 1 ?r1 = ''.''" by (simp add: startswith_def)
    then have "?r1 = ''.'' @ drop 1 ?r1" using append_take_drop_id [of 1 ?r1] by simp
    then show ?thesis using True by simp
  next
    case False
    then show ?thesis by simp
  qed
  have "s = take 2 s @ ?r1" by simp
  also have "?r1 = ?dot @ ?ws @ ?r3" using r1 by simp
  also have "?r3 = d @ ?rest" using d(1) by simp
  finally have s: "s = take 2 s @ ?dot @ ?ws @ d @ ?rest" by simp
  have ws: "list_all is_space ?ws"
    by (simp add: list_all_iff) (meson set_takeWhileD)
  have dd: "list_all is_decimal d"
    unfolding d(1) by (simp add: list_all_iff) (meson set_takeWhileD)
  have rest: "(case ?rest of [] \<Rightarrow> True | c # cs \<Rightarrow> \<not> is_decimal c)"
    by (rule dropWhile_head)
  have dot: "?dot = [] \<or> ?dot = ''.''" by simp
  show "chapter_token s d"
    unfolding chapter_token_def
    using s tok dot ws d(2) dd rest by blast
next
  assume "chapter_token s d"
  then obtain tok dot ws rest where
    s: "s = tok @ dot @ ws @ d @ rest"
    and tok: "lower tok = ''ch'' \<or> lower tok = ''pt''"
    and dot: "dot = [] \<or> dot = ''.''"
    and ws: "list_all is_space ws"
    and d: "d \<noteq> []" "list_all is_decimal d"
    and rest: "(case rest of [] \<Rightarrow> True | c # cs \<Rightarrow> \<not> is_decimal c)"
    unfolding chapter_token_def by blast
  have len: "length tok = 2" using tok lower_two by blast
  then have take: "take 2 s = tok" and drop: "drop 2 s = dot @ ws @ d @ rest"
    using s by simp_all
  obtain c0 d' where d0: "d = c0 # d'" using d(1) by (cases d) auto
  then have c0: "is_decimal c0" using d(2) by simp
  have head: "\<not> startswith (ws @ d @ rest) ''.''"
  proof (cases ws)
    case Nil
    then show ?thesis using d0 c0 dot_not_class by (auto simp: startswith_def)
  next
    case (Cons x xs)
    then have "is_space x" using ws by simp
    then show ?thesis using Cons dot_not_class by (auto simp: startswith_def)
  qed
  have r2: "(if startswith (drop 2 s) ''.'' then drop 1 (drop 2 s) else drop 2 s) = ws @ d @ rest"
  proof (cases "dot = []")
    case True
    then show ?thesis using drop head by simp
  next
    case False
    then have "dot = ''.''" using dot by simp
    then show ?thesis using drop by (simp add: startswith_def)
  qed
  have "dropWhile is_space (ws @ d @ rest) = dropWhile is_space (d @ rest)"
    using ws by (simp add: list_all_iff dropWhile_append2)
  also have "\<dots> = d @ rest" using d0 c0 decimal_not_space by simp
  finally have r3: "dropWhile is_space (ws @ d @ rest) = d @ rest" .
  have "takeWhile is_decimal (d @ rest) = d @ takeWhile is_decimal rest"
    using d(2) by (simp add: list_all_iff takeWhile_append2)
  also have "takeWhile is_decimal rest = []" using rest by (cases rest) auto
  finally have digits: "takeWhile is_decimal (d @ rest) = d" by simp
  show "match_chapter_at s = Some d"
    unfolding match_chapter_at_def Let_def r2 r3 digits
    using take tok d(1) by simp
qed

lemma no_token_Nil: "\<not> chapter_token [] d"
  using match_token_iff [of "[]" d]
  by (simp add: match_chapter_at_def lower_def)

lemma search_first_token: "search_chapter s = Some d \<longleftrightarrow> first_token s d"
proof (induction s)
  case Nil
  show ?case by (simp add: first_token_def no_token_Nil)
next
  case (Cons c cs)
  show ?case
  proof
    assume found: "search_chapter (c # cs) = Some d"
    show "first_token (c # cs) d"
    proof (cases "match_chapter_at (c # cs)")
      case (Some d0)
      then have "d0 = d" using found by simp
      then have "chapter_token (c # cs) d" using Some match_token_iff by simp
      then have "c # cs = [] @ (c # cs) \<and> chapter_token (c # cs) d
          \<and> \<not> (\<exists>pre' s' d'. c # cs = pre' @ s' \<and> length pre' < length ([] :: string)
                                \<and> chapter_token s' d')"
        by simp
      then show ?thesis unfolding first_token_def by blast
    next
      case None
      then have "search_chapter cs = Some d" using found by simp
      then have "first_token cs d" using Cons.IH by simp
      then obtain pre s where ps: "cs = pre @ s" "chapter_token s d"
        and left: "\<not> (\<exists>pre' s' d'. cs = pre' @ s' \<and> length pre' < length pre
                                \<and> chapter_token s' d')"
        unfolding first_token_def by blast
      have "\<not> (\<exists>pre' s' d'. c # cs = pre' @ s' \<and> length pre' < length (c # pre)
                                \<and> chapter_token s' d')"
      proof
        assume "\<exists>pre' s' d'. c # cs = pre' @ s' \<and> length pre' < length (c # pre)
                                \<and> chapter_token s' d'"
        then obtain pre' s' d' where e: "c # cs = pre' @ s'" "length pre' < length (c # pre)"
          "chapter_token s' d'" by blast
        show False
        proof (cases pre')
          case Nil
          then have "chapter_token (c # cs) d'" using e by simp
          then show False using None match_token_iff [of "c # cs" d'] by simp
        next
          case (Cons x p)
          then have "cs = p @ s'" "length p < length pre" using e by simp_all
          then show False using left e(3) by blast
        qed
      qed
      moreover have "c # cs = (c # pre) @ s" using ps by simp
      ultimately show ?thesis unfolding first_token_def using ps(2) by blast
    qed
  next
    assume "first_token (c # cs) d"
    then obtain pre s where ps: "c # cs = pre @ s" "chapter_token s d"
      and left: "\<not> (\<exists>pre' s' d'. c # cs = pre' @ s' \<and> length pre' < length pre
                                \<and> chapter_token s' d')"
      unfolding first_token_def by blast
    show "search_chapter (c # cs) = Some d"
    proof (cases pre)
      case Nil
      then have "match_chapter_at (c # cs) = Some d" using ps match_token_iff by simp
      then show ?thesis by simp
    next
      case (Cons x p)
      then have cs: "cs = p @ s" and x: "x = c" using ps by simp_all
      have "match_chapter_at (c # cs) = None"
      proof (cases "match_chapter_at (c # cs)")
        case None
        then show ?thesis .
      next
        case (Some d')
        then have "chapter_token (c # cs) d'" using match_token_iff by simp
        then have "c # cs = [] @ (c # cs) \<and> length ([] :: string) < length pre
            \<and> chapter_token (c # cs) d'" using Cons by simp
        then show ?thesis using left by blast
      qed
      moreover have "first_token cs d"
      proof -
        have "\<not> (\<exists>p' s' d'. cs = p' @ s' \<and> length p' < length p \<and> chapter_token s' d')"
        proof
          assume "\<exists>p' s' d'. cs = p' @ s' \<and> length p' < length p \<and> chapter_token s' d'"
          then obtain p' s' d' where e: "cs = p' @ s'" "length p' < length p"
            "chapter_token s' d'" by blast
          then have "c # cs = (c # p') @ s' \<and> length (c # p') < length pre
              \<and> chapter_token s' d'" using Cons by simp
          then show False using left by blast
        qed
        then show ?thesis unfolding first_token_def using cs ps(2) by blast
      qed
      ultimately show ?thesis using Cons.IH by simp
    qed
  qed
qed

lemma chapter_order_token:
  "(first_token label d \<longrightarrow> chapter_order label st = int_of_digits d)
   \<and> (\<not> (\<exists>d. first_token label d) \<longrightarrow>
        chapter_order label st
          = (if strip label = strip st \<or> (\<exists>r. lower label = lower st @ r) then 1 else 999))"
proof (intro conjI impI)
  assume "first_token label d"
  then have "search_chapter label = Some d" using search_first_token by simp
  then show "chapter_order label st = int_of_digits d" by (simp add: chapter_order_def)
next
  assume "\<not> (\<exists>d. first_token label d)"
  then have "search_chapter label = None"
    using search_first_token by (cases "search_chapter label") auto
  then show "chapter_order label st
          = (if strip label = strip st \<or> (\<exists>r. lower label = lower st @ r) then 1 else 999)"
    by (simp add: chapter_order_def startswith_iff)
qed

text \<open>
  C6 as it is written fails on a label that begins with the series title and goes on:
  it has no chapter number and is not the title, yet its key is 1.
\<close>

theorem chapter_order_counterexample:
  "search_chapter ''My Story Epilogue'' = None
   \<and> spec_order ''My Story Epilogue'' ''My Story'' = 999
   \<and> chapter_order ''My Story Epilogue'' ''My Story'' = 1"
  by (simp add: spec_order_def chapter_order_def match_chapter_at_def char_eval
                startswith_def strip_def is_space_def is_digit_def is_decimal_def)

text \<open>
  C6, as the source has it.  The order key of a label is the number of its first chapter
  or part token (\<^verbatim>\<open>ch\<close> or \<^verbatim>\<open>pt\<close> in any case, at most one dot, any white space,
  then the digits); when the label has no such token the key is 1 if the label equals
  the series title after trimming both, or begins with the series title when both are
  put in lower case, and 999 otherwise.  The chapters are the anchors of the first
  selector that yields any, each with its key, and they are walked in the order of a
  stable sort by that key: ascending, equal keys in the order of the page.
\<close>

theorem chapters_stable_sort:
  "(first_token label d \<longrightarrow> chapter_order label st = int_of_digits d)
   \<and> (\<not> (\<exists>d. first_token label' d) \<longrightarrow>
        chapter_order label' st
          = (if strip label' = strip st \<or> (\<exists>r. lower label' = lower st @ r) then 1 else 999))
   \<and> series_chapters E sp st ch_sels [] =
     (case find (\<lambda>s. filter chapter_anchor (select sp s) \<noteq> []) ch_sels of
        Some s \<Rightarrow> map (chapter_ref E st) (filter chapter_anchor (select sp s))
      | None \<Rightarrow> [])
   \<and> snd (snd (chapter_ref E st e)) = chapter_order (get_text_strip e) st
   \<and> sorted (map (\<lambda>c. snd (snd c)) (sort_chapters (series_chapters E sp st ch_sels [])))
   \<and> length (sort_chapters (series_chapters E sp st ch_sels []))
       = length (series_chapters E sp st ch_sels [])
   \<and> filter (\<lambda>c. snd (snd c) = k) (sort_chapters (series_chapters E sp st ch_sels []))
       = filter (\<lambda>c. snd (snd c) = k) (series_chapters E sp st ch_sels [])"
proof -
  have "first_token label d \<longrightarrow> chapter_order label st = int_of_digits d"
    using chapter_order_token [of label d st] by blast
  moreover have "\<not> (\<exists>d. first_token label' d) \<longrightarrow>
        chapter_order label' st
          = (if strip label' = strip st \<or> (\<exists>r. lower label' = lower st @ r) then 1 else 999)"
    using chapter_order_token [of label' d st] by blast
  moreover have "snd (snd (chapter_ref E st e)) = chapter_order (get_text_strip e) st"
    by (simp add: chapter_ref_def)
  moreover have "sorted (map (\<lambda>c. snd (snd c)) (sort_chapters (series_chapters E sp st ch_sels [])))"
    unfolding sort_chapters_def by (rule sorted_sort_key)
  moreover have "length (sort_chapters (series_chapters E sp st ch_sels []))
       = length (series_chapters E sp st ch_sels [])"
    unfolding sort_chapters_def by simp
  moreover have "filter (\<lambda>c. snd (snd c) = k) (sort_chapters (series_chapters E sp st ch_sels []))
       = filter (\<lambda>c. snd (snd c) = k) (series_chapters E sp st ch_sels [])"
    unfolding sort_chapters_def by (rule sort_key_stable)
  ultimately show ?thesis using series_chapters_find [of E sp st ch_sels] by simp
qed

lemma series_page_chapters:
  "series_chapters (site (\<lambda>u. Inr series_page)) series_page ''My Story'' ch_sels [] =
       [(''Side Story'', ''https://example.com/s/side'', 999),
        (''My Story Ch.'' @ [CHR 0xA0] @ ''02'', ''https://example.com/s/my-story-ch-02'', 2),
        (''Bonus'', ''https://example.com/s/bonus'', 999),
        (''My Story'', ''https://example.com/s/my-story'', 1)]"
  by (simp add: series_page_def ch_sels_def add_chapter_def chapter_order_def
                match_chapter_at_def char_eval startswith_def strip_def
                is_space_def is_decimal_def int_of_digits_def digit_val_def site_def)

lemma numbered_label:
  "search_chapter (''My Story Ch.'' @ [CHR 0xA0] @ ''02'') = Some ''02''"
  "search_chapter ''Side Story'' = None"
  by (simp_all add: match_chapter_at_def char_eval startswith_def is_space_def is_decimal_def)

theorem chapters_stable_sort_witness:
  "chapter_order (''My Story Ch.'' @ [CHR 0xA0] @ ''02'') ''My Story'' = 2
   \<and> chapter_order ''Side Story'' ''My Story'' = 999
   \<and> sort_chapters (series_chapters (site (\<lambda>u. Inr series_page)) series_page ''My Story'' ch_sels [])
     = [(''My Story'', ''https://example.com/s/my-story'', 1),
        (''My Story Ch.'' @ [CHR 0xA0] @ ''02'', ''https://example.com/s/my-story-ch-02'', 2),
        (''Side Story'', ''https://example.com/s/side'', 999),
        (''Bonus'', ''https://example.com/s/bonus'', 999)]
   \<and> filter (\<lambda>c. snd (snd c) = 999)
        (sort_chapters (series_chapters (site (\<lambda>u. Inr series_page)) series_page ''My Story''
           ch_sels []))
       = [(''Side Story'', ''https://example.com/s/side'', 999),
          (''Bonus'', ''https://example.com/s/bonus'', 999)]"
proof -
  let ?cs = "series_chapters (site (\<lambda>u. Inr series_page)) series_page ''My Story'' ch_sels []"
  note t = chapters_stable_sort [of "''My Story Ch.'' @ [CHR 0xA0] @ ''02''" "''02''" "''My Story''"
            "''Side Story''" "site (\<lambda>u. Inr series_page)" series_page "Element [] [] None []" 999]
  have tok: "first_token (''My Story Ch.'' @ [CHR 0xA0] @ ''02'') ''02''"
    using numbered_label(1) search_first_token by blast
  have none: "\<not> (\<exists>d. first_token ''Side Story'' d)"
  proof
    assume "\<exists>d. first_token ''Side Story'' d"
    then obtain d where "search_chapter ''Side Story'' = Some d"
      using search_first_token by blast
    with numbered_label(2) show False by (metis option.distinct(1))
  qed
  have "chapter_order (''My Story Ch.'' @ [CHR 0xA0] @ ''02'') ''My Story'' = int_of_digits ''02''"
    using t tok by blast
  then have a: "chapter_order (''My Story Ch.'' @ [CHR 0xA0] @ ''02'') ''My Story'' = 2"
    by (simp add: int_of_digits_def digit_val_def)
  have "chapter_order ''Side Story'' ''My Story''
      = (if strip ''Side Story'' = strip ''My Story''
            \<or> (\<exists>r. lower ''Side Story'' = lower ''My Story'' @ r) then 1 else 999)"
    using t none by blast
  then have b: "chapter_order ''Side Story'' ''My Story'' = 999"
    by (simp add: strip_def is_space_def char_eval)
  have c: "filter (\<lambda>c. snd (snd c) = 999) (sort_chapters ?cs) = filter (\<lambda>c. snd (snd c) = 999) ?cs"
    using t by (elim conjE)
  have d: "sort_chapters ?cs
     = [(''My Story'', ''https://example.com/s/my-story'', 1),
        (''My Story Ch.'' @ [CHR 0xA0] @ ''02'', ''https://example.com/s/my-story-ch-02'', 2),
        (''Side Story'', ''https://example.com/s/side'', 999),
        (''Bonus'', ''https://example.com/s/bonus'', 999)]"
    by (simp add: series_page_chapters sort_chapters_def)
  show ?thesis using a b c d by (simp add: series_page_chapters)
qed

section \<open>Properties of the walks\<close>

subsection \<open>The trace of one fetch\<close>

lemma fetched_append: "fetched (xs @ ys) = fetched xs @ fetched ys"
  by (induction xs rule: fetched.induct) simp_all

lemma received_append: "received E h (xs @ ys) = received E h xs @ received E (h @ xs) ys"
  by (induction E h xs rule: received.induct) simp_all

lemma attempts_trace:
  "\<exists>new. snd (attempts E u m as w) = w\<lparr>events := events w @ new\<rparr>
     \<and> received E (events w) new
         = (case fst (attempts E u m as w) of Some sp \<Rightarrow> [(u, sp)] | None \<Rightarrow> [])
     \<and> (0 \<notin> set as \<longrightarrow> fetched new = [])
     \<and> (\<forall>rest. as = 0 # rest \<and> 0 \<notin> set rest \<longrightarrow> fetched new = [u])
     \<and> (\<forall>sp. fst (attempts E u m as w) = Some sp \<longrightarrow> (\<exists>h. http_get E h u = Inr sp))"
proof (induction as arbitrary: w)
  case Nil
  show ?case by (intro exI [of _ "[]"]) simp
next
  case (Cons a as)
  let ?w1 = "emit (Sleep a) w"
  let ?w2 = "emit (Get a u) ?w1"
  show ?case
  proof (cases "http_get E (events ?w1) u")
    case (Inr r)
    then show ?thesis
      by (intro exI [of _ "[Sleep a, Get a u]"]) (auto simp: Let_def emit_def)
  next
    case (Inl e)
    show ?thesis
    proof (cases "a = m")
      case True
      then show ?thesis using Inl
        by (intro exI [of _ "[Sleep a, Get a u, Error u (m + 1) e]"])
           (auto simp: Let_def emit_def)
    next
      case False
      let ?w3 = "emit (Warning u (a + 1) e) ?w2"
      from Cons.IH [of ?w3] obtain new where
        n: "snd (attempts E u m as ?w3) = ?w3\<lparr>events := events ?w3 @ new\<rparr>"
           "received E (events ?w3) new
              = (case fst (attempts E u m as ?w3) of Some sp \<Rightarrow> [(u, sp)] | None \<Rightarrow> [])"
           "0 \<notin> set as \<longrightarrow> fetched new = []"
           "\<forall>sp. fst (attempts E u m as ?w3) = Some sp \<longrightarrow> (\<exists>h. http_get E h u = Inr sp)"
        by blast
      have eq: "attempts E u m (a # as) w = attempts E u m as ?w3"
        using Inl False by (simp add: Let_def)
      have ev: "events ?w3 = events w @ [Sleep a, Get a u, Warning u (a + 1) e]"
        by (simp add: emit_def)
      have "snd (attempts E u m (a # as) w)
          = w\<lparr>events := events w @ ([Sleep a, Get a u, Warning u (a + 1) e] @ new)\<rparr>"
        using n(1) eq by (simp add: emit_def)
      moreover have "received E (events w) ([Sleep a, Get a u, Warning u (a + 1) e] @ new)
          = (case fst (attempts E u m (a # as) w) of Some sp \<Rightarrow> [(u, sp)] | None \<Rightarrow> [])"
        using n(2) eq Inl ev by (simp add: emit_def)
      moreover have "0 \<notin> set (a # as)
          \<longrightarrow> fetched ([Sleep a, Get a u, Warning u (a + 1) e] @ new) = []"
        using n(3) by simp
      moreover have "\<forall>rest. a # as = 0 # rest \<and> 0 \<notin> set rest
          \<longrightarrow> fetched ([Sleep a, Get a u, Warning u (a + 1) e] @ new) = [u]"
        using n(3) by simp
      moreover have "\<forall>sp. fst (attempts E u m (a # as) w) = Some sp
          \<longrightarrow> (\<exists>h. http_get E h u = Inr sp)"
        using n(4) eq by simp
      ultimately show ?thesis by blast
    qed
  qed
qed

lemma fetch_trace:
  "\<exists>new. snd (make_request_with_retry E u 3 w) = w\<lparr>events := events w @ new\<rparr>
     \<and> received E (events w) new
         = (case fst (make_request_with_retry E u 3 w) of Some sp \<Rightarrow> [(u, sp)] | None \<Rightarrow> [])
     \<and> set (fetched new) \<subseteq> {u} \<and> distinct (fetched new)
     \<and> (\<forall>sp. fst (make_request_with_retry E u 3 w) = Some sp
           \<longrightarrow> fetched new = [u] \<and> (\<exists>h. http_get E h u = Inr sp))"
proof (cases "list_ex (\<lambda>k. contains k (url_host E u)) blocked")
  case True
  then show ?thesis
    by (intro exI [of _ "[]"]) (simp add: make_request_with_retry_def)
next
  case False
  have up: "[0..3] = 0 # [1, 2, 3::int]" by (simp add: upto_rec1)
  from attempts_trace [of E u 3 "[0..3]" w] obtain new where
    n: "snd (attempts E u 3 [0..3] w) = w\<lparr>events := events w @ new\<rparr>"
       "received E (events w) new
         = (case fst (attempts E u 3 [0..3] w) of Some sp \<Rightarrow> [(u, sp)] | None \<Rightarrow> [])"
       "\<forall>rest. [0..3] = 0 # rest \<and> 0 \<notin> set rest \<longrightarrow> fetched new = [u]"
       "\<forall>sp. fst (attempts E u 3 [0..3] w) = Some sp \<longrightarrow> (\<exists>h. http_get E h u = Inr sp)"
    by blast
  from n(3) up have "fetched new = [u]" by simp
  then show ?thesis using n False
    by (intro exI [of _ new]) (simp add: make_request_with_retry_def)
qed

lemma set_enqueue: "set (enqueue dn todo nexts) \<subseteq> set todo \<union> set nexts"
  unfolding enqueue_def
  by (induction nexts arbitrary: todo) (auto split: if_splits, fastforce+)

subsection \<open>One iteration of each loop\<close>

lemma series_walk_Nil: "series_walk E [] dn w = Some (None, w)"
  by (subst series_walk.simps) simp

lemma series_walk_seen:
  "u \<in> dn \<Longrightarrow> series_walk E (u # todo) dn w = series_walk E todo dn w"
  by (subst series_walk.simps) simp

lemma series_walk_failed:
  "u \<notin> dn \<Longrightarrow> make_request_with_retry E u 3 w = (None, w1)
   \<Longrightarrow> series_walk E (u # todo) dn w = series_walk E todo (insert u dn) w1"
  by (subst series_walk.simps) simp

lemma series_walk_page:
  "u \<notin> dn \<Longrightarrow> make_request_with_retry E u 3 w = (Some sp, w1)
   \<Longrightarrow> series_walk E (u # todo) dn w =
         (if extract_series E sp \<noteq> None \<and> extract_series E sp \<noteq> Some []
          then Some (extract_series E sp, w1)
          else series_walk E (enqueue (insert u dn) todo (extract_nexts E sp u))
                 (insert u dn) w1)"
  by (subst series_walk.simps) (simp add: extract_story_content_def Let_def)

lemma chapter_walk_Nil: "chapter_walk E [] dn part pc w = Some (dn, part, pc, w)"
  by (subst chapter_walk.simps) simp

lemma chapter_walk_seen:
  "cu \<in> dn \<Longrightarrow> chapter_walk E (cu # pages) dn part pc w = chapter_walk E pages dn part pc w"
  by (subst chapter_walk.simps) simp

lemma chapter_walk_failed:
  "cu \<notin> dn \<Longrightarrow> make_request_with_retry E cu 3 w = (None, w1)
   \<Longrightarrow> chapter_walk E (cu # pages) dn part pc w
         = chapter_walk E pages (insert cu dn) part pc w1"
  by (subst chapter_walk.simps) simp

lemma chapter_walk_page:
  "cu \<notin> dn \<Longrightarrow> make_request_with_retry E cu 3 w = (Some ps, w1)
   \<Longrightarrow> chapter_walk E (cu # pages) dn part pc w
         = chapter_walk E (enqueue (insert cu dn) pages (extract_nexts E ps cu))
             (insert cu dn) (part + 1) (add_part part pc (extract_paras ps)) w1"
  by (subst chapter_walk.simps) (simp add: extract_story_content_def Let_def)

lemma story_walk_Nil:
  "story_walk E surl pp chs [] dn part allc w = Some (dn, part, allc, w)"
  by (subst story_walk.simps) simp

lemma story_walk_seen:
  "cu \<in> dn \<Longrightarrow> story_walk E surl pp chs (cu # todo) dn part allc w
                   = story_walk E surl pp chs todo dn part allc w"
  by (subst story_walk.simps) simp

lemma story_walk_seed:
  "surl \<notin> dn \<Longrightarrow> story_walk E surl pp chs (surl # todo) dn part allc w
     = story_walk E surl pp chs (enqueue (insert surl dn) todo chs) (insert surl dn)
         (part + 1) (add_part part allc pp) w"
  by (subst story_walk.simps) (simp add: Let_def)

lemma story_walk_failed:
  "cu \<notin> dn \<Longrightarrow> cu \<noteq> surl \<Longrightarrow> make_request_with_retry E cu 3 w = (None, w1)
   \<Longrightarrow> story_walk E surl pp chs (cu # todo) dn part allc w
         = story_walk E surl pp chs todo (insert cu dn) part allc w1"
  by (subst story_walk.simps) (simp add: Let_def)

lemma story_walk_page:
  "cu \<notin> dn \<Longrightarrow> cu \<noteq> surl \<Longrightarrow> make_request_with_retry E cu 3 w = (Some ps, w1)
   \<Longrightarrow> story_walk E surl pp chs (cu # todo) dn part allc w
         = story_walk E surl pp chs (enqueue (insert cu dn) todo (extract_nexts E ps cu))
             (insert cu dn) (part + 1) (add_part part allc (extract_paras ps)) w1"
  by (subst story_walk.simps) (simp add: Let_def extract_story_content_def)

subsection \<open>Termination on a finite set of urls\<close>

lemma card_visit: "finite U \<Longrightarrow> u \<in> U \<Longrightarrow> u \<notin> dn \<Longrightarrow> card (U - insert u dn) < card (U - dn)"
  by (metis Diff_iff Diff_insert card_Diff1_less finite_Diff)

lemma fetch_cases:
  obtains new where "make_request_with_retry E u 3 w = (None, w\<lparr>events := events w @ new\<rparr>)"
      and "set (fetched new) \<subseteq> {u}" and "distinct (fetched new)"
      and "received E (events w) new = []"
  | new sp h where "make_request_with_retry E u 3 w = (Some sp, w\<lparr>events := events w @ new\<rparr>)"
      and "fetched new = [u]" and "http_get E h u = Inr sp"
      and "received E (events w) new = [(u, sp)]"
proof -
  from fetch_trace [of E u w] obtain new where
    n: "snd (make_request_with_retry E u 3 w) = w\<lparr>events := events w @ new\<rparr>"
       "received E (events w) new
         = (case fst (make_request_with_retry E u 3 w) of Some sp \<Rightarrow> [(u, sp)] | None \<Rightarrow> [])"
       "set (fetched new) \<subseteq> {u}" "distinct (fetched new)"
       "\<forall>sp. fst (make_request_with_retry E u 3 w) = Some sp
           \<longrightarrow> fetched new = [u] \<and> (\<exists>h. http_get E h u = Inr sp)"
    by blast
  show thesis
  proof (cases "fst (make_request_with_retry E u 3 w)")
    case None
    then have "make_request_with_retry E u 3 w = (None, w\<lparr>events := events w @ new\<rparr>)"
      using n(1) by (metis prod.collapse)
    then show ?thesis using that(1) n None by simp
  next
    case (Some sp)
    then have "make_request_with_retry E u 3 w = (Some sp, w\<lparr>events := events w @ new\<rparr>)"
      using n(1) by (metis prod.collapse)
    moreover from n(5) Some obtain h where "fetched new = [u]" "http_get E h u = Inr sp" by blast
    ultimately show ?thesis using that(2) n(2) Some by simp
  qed
qed

lemma series_walk_total:
  assumes fin: "finite U"
      and links: "\<forall>h u sp. http_get E h u = Inr sp \<longrightarrow> set (extract_nexts E sp u) \<subseteq> U"
  shows "set todo \<subseteq> U \<Longrightarrow>
         \<exists>r new. series_walk E todo dn w = Some (r, w\<lparr>events := events w @ new\<rparr>)
            \<and> distinct (fetched new) \<and> set (fetched new) \<inter> dn = {}"
proof (induction "card (U - dn)" arbitrary: todo "dn" w rule: less_induct)
  case less
  have closed: "\<And>h u sp. http_get E h u = Inr sp \<Longrightarrow> set (extract_nexts E sp u) \<subseteq> U"
    using links by blast
  show ?case using less.prems
  proof (induction todo arbitrary: w)
    case Nil
    show ?case by (intro exI [of _ None] exI [of _ "[]"]) (simp add: series_walk_Nil)
  next
    case (Cons u todo)
    then have sub: "set todo \<subseteq> U" and uU: "u \<in> U" by auto
    show ?case
    proof (cases "u \<in> dn")
      case True
      then show ?thesis using Cons.IH [OF sub] by (simp add: series_walk_seen)
    next
      case False
      have lt: "card (U - insert u dn) < card (U - dn)"
        using fin uU False by (rule card_visit)
      show ?thesis
      proof (cases rule: fetch_cases [of E u w])
        case (1 new)
        let ?w1 = "w\<lparr>events := events w @ new\<rparr>"
        from less.hyps [OF lt sub, of ?w1] obtain r new2 where
          r: "series_walk E todo (insert u dn) ?w1 = Some (r, ?w1\<lparr>events := events ?w1 @ new2\<rparr>)"
             "distinct (fetched new2)" "set (fetched new2) \<inter> insert u dn = {}" by blast
        have "series_walk E (u # todo) dn w = Some (r, w\<lparr>events := events w @ (new @ new2)\<rparr>)"
          using series_walk_failed [OF False 1(1)] r(1) by simp
        moreover have "distinct (fetched (new @ new2))"
          using 1(2,3) r(2,3) by (auto simp: fetched_append)
        moreover have "set (fetched (new @ new2)) \<inter> dn = {}"
          using 1(2) r(3) False by (auto simp: fetched_append)
        ultimately show ?thesis by blast
      next
        case (2 new sp h)
        let ?w1 = "w\<lparr>events := events w @ new\<rparr>"
        show ?thesis
        proof (cases "extract_series E sp \<noteq> None \<and> extract_series E sp \<noteq> Some []")
          case True
          then have "series_walk E (u # todo) dn w = Some (extract_series E sp, ?w1)"
            using series_walk_page [OF False 2(1)] by simp
          moreover have "distinct (fetched new)" "set (fetched new) \<inter> dn = {}"
            using 2(2) False by auto
          ultimately show ?thesis by blast
        next
          case no: False
          let ?todo = "enqueue (insert u dn) todo (extract_nexts E sp u)"
          have "set ?todo \<subseteq> U"
            using set_enqueue [where dn = "insert u dn" and todo = todo and nexts = "extract_nexts E sp u"] sub
                  closed [OF 2(3)] by blast
          from less.hyps [OF lt this, of ?w1] obtain r new2 where
            r: "series_walk E ?todo (insert u dn) ?w1
                  = Some (r, ?w1\<lparr>events := events ?w1 @ new2\<rparr>)"
               "distinct (fetched new2)" "set (fetched new2) \<inter> insert u dn = {}" by blast
          have "series_walk E (u # todo) dn w = Some (r, w\<lparr>events := events w @ (new @ new2)\<rparr>)"
            using series_walk_page [OF False 2(1), of todo] no r(1)
            by (cases "extract_series E sp") auto
          moreover have "distinct (fetched (new @ new2))"
            using 2(2) r(2,3) by (auto simp: fetched_append)
          moreover have "set (fetched (new @ new2)) \<inter> dn = {}"
            using 2(2) r(3) False by (auto simp: fetched_append)
          ultimately show ?thesis by blast
        qed
      qed
    qed
  qed
qed

lemma add_part_number: "add_part part pc pp @ number_parts (part + 1) pps = pc @ number_parts part (pp # pps)"
  by (simp add: add_part_def)

lemma chapter_walk_trace:
  assumes "chapter_walk E pages dn part pc w = Some y"
  shows "\<exists>new. snd (snd (snd y)) = w\<lparr>events := events w @ new\<rparr>
     \<and> distinct (fetched new) \<and> set (fetched new) \<inter> dn = {}
     \<and> fst (snd y) = part + int (length (received E (events w) new))
     \<and> fst (snd (snd y))
         = pc @ number_parts part (map (\<lambda>r. extract_paras (snd r)) (received E (events w) new))"
proof (induct rule: chapter_walk.raw_induct [OF _ assms])
  case (1 walk E pages dn part pc w y)
  show ?case
  proof (cases pages)
    case Nil
    then have "y = (dn, part, pc, w)" using "1.hyps"(2) by simp
    then show ?thesis by (intro exI [of _ "[]"]) simp
  next
    case (Cons cu pages')
    show ?thesis
    proof (cases "cu \<in> dn")
      case True
      then have "walk E pages' dn part pc w = Some y" using "1.hyps"(2) Cons by simp
      then show ?thesis by (rule "1.hyps"(1))
    next
      case False
      show ?thesis
      proof (cases rule: fetch_cases [of E cu w])
        case (1 new)
        let ?w1 = "w\<lparr>events := events w @ new\<rparr>"
        have "walk E pages' (insert cu dn) part pc ?w1 = Some y"
          using "1.hyps"(2) Cons False 1(1) by simp
        from "1.hyps"(1) [OF this] obtain new2 where
          r: "snd (snd (snd y)) = ?w1\<lparr>events := events ?w1 @ new2\<rparr>"
             "distinct (fetched new2)" "set (fetched new2) \<inter> insert cu dn = {}"
             "fst (snd y) = part + int (length (received E (events ?w1) new2))"
             "fst (snd (snd y)) = pc @ number_parts part
                (map (\<lambda>r. extract_paras (snd r)) (received E (events ?w1) new2))"
          by blast
        have "snd (snd (snd y)) = w\<lparr>events := events w @ (new @ new2)\<rparr>" using r(1) by simp
        moreover have "distinct (fetched (new @ new2))"
          using 1(2,3) r(2,3) by (auto simp: fetched_append)
        moreover have "set (fetched (new @ new2)) \<inter> dn = {}"
          using 1(2) r(3) False by (auto simp: fetched_append)
        moreover have "received E (events w) (new @ new2) = received E (events ?w1) new2"
          using 1(4) by (simp add: received_append)
        ultimately show ?thesis using r(4,5) by (intro exI [of _ "new @ new2"]) simp
      next
        case (2 new ps h)
        let ?w1 = "w\<lparr>events := events w @ new\<rparr>"
        have "walk E (enqueue (insert cu dn) pages' (extract_nexts E ps cu)) (insert cu dn)
                (part + 1) (add_part part pc (extract_paras ps)) ?w1 = Some y"
          using "1.hyps"(2) Cons False 2(1) by (simp add: Let_def extract_story_content_def)
        from "1.hyps"(1) [OF this] obtain new2 where
          r: "snd (snd (snd y)) = ?w1\<lparr>events := events ?w1 @ new2\<rparr>"
             "distinct (fetched new2)" "set (fetched new2) \<inter> insert cu dn = {}"
             "fst (snd y) = part + 1 + int (length (received E (events ?w1) new2))"
             "fst (snd (snd y)) = add_part part pc (extract_paras ps) @ number_parts (part + 1)
                (map (\<lambda>r. extract_paras (snd r)) (received E (events ?w1) new2))"
          by blast
        have "snd (snd (snd y)) = w\<lparr>events := events w @ (new @ new2)\<rparr>" using r(1) by simp
        moreover have "distinct (fetched (new @ new2))"
          using 2(2) r(2,3) by (auto simp: fetched_append)
        moreover have "set (fetched (new @ new2)) \<inter> dn = {}"
          using 2(2) r(3) False by (auto simp: fetched_append)
        moreover have "received E (events w) (new @ new2)
            = (cu, ps) # received E (events ?w1) new2"
          using 2(4) by (simp add: received_append)
        ultimately show ?thesis using r(4,5)
          by (intro exI [of _ "new @ new2"]) (simp add: add_part_number)
      qed
    qed
  qed
qed

lemma story_walk_trace:
  assumes "story_walk E surl pp chs todo dn part allc w = Some y"
  shows "surl \<in> dn \<longrightarrow>
    (\<exists>new. snd (snd (snd y)) = w\<lparr>events := events w @ new\<rparr>
     \<and> distinct (fetched new) \<and> set (fetched new) \<inter> dn = {}
     \<and> fst (snd y) = part + int (length (received E (events w) new))
     \<and> fst (snd (snd y))
         = allc @ number_parts part (map (\<lambda>r. extract_paras (snd r)) (received E (events w) new)))"
proof (induct rule: story_walk.raw_induct [OF _ assms])
  case (1 walk E surl pp chs todo dn part allc w y)
  show ?case
  proof
    assume seed: "surl \<in> dn"
    show "\<exists>new. snd (snd (snd y)) = w\<lparr>events := events w @ new\<rparr>
     \<and> distinct (fetched new) \<and> set (fetched new) \<inter> dn = {}
     \<and> fst (snd y) = part + int (length (received E (events w) new))
     \<and> fst (snd (snd y))
         = allc @ number_parts part (map (\<lambda>r. extract_paras (snd r)) (received E (events w) new))"
    proof (cases todo)
      case Nil
      then have "y = (dn, part, allc, w)" using "1.hyps"(2) by simp
      then show ?thesis by (intro exI [of _ "[]"]) simp
    next
      case (Cons cu todo')
      show ?thesis
      proof (cases "cu \<in> dn")
        case True
        then have "walk E surl pp chs todo' dn part allc w = Some y"
          using "1.hyps"(2) Cons by simp
        from "1.hyps"(1) [OF this] seed show ?thesis by blast
      next
        case False
        then have ne: "cu \<noteq> surl" using seed by auto
        have seed': "surl \<in> insert cu dn" using seed by simp
        show ?thesis
        proof (cases rule: fetch_cases [of E cu w])
          case (1 new)
          let ?w1 = "w\<lparr>events := events w @ new\<rparr>"
          have "walk E surl pp chs todo' (insert cu dn) part allc ?w1 = Some y"
            using "1.hyps"(2) Cons False ne 1(1) by (simp add: Let_def)
          from "1.hyps"(1) [OF this] seed' obtain new2 where
            r: "snd (snd (snd y)) = ?w1\<lparr>events := events ?w1 @ new2\<rparr>"
               "distinct (fetched new2)" "set (fetched new2) \<inter> insert cu dn = {}"
               "fst (snd y) = part + int (length (received E (events ?w1) new2))"
               "fst (snd (snd y)) = allc @ number_parts part
                  (map (\<lambda>r. extract_paras (snd r)) (received E (events ?w1) new2))"
            by blast
          have "snd (snd (snd y)) = w\<lparr>events := events w @ (new @ new2)\<rparr>" using r(1) by simp
          moreover have "distinct (fetched (new @ new2))"
            using 1(2,3) r(2,3) by (auto simp: fetched_append)
          moreover have "set (fetched (new @ new2)) \<inter> dn = {}"
            using 1(2) r(3) False by (auto simp: fetched_append)
          moreover have "received E (events w) (new @ new2) = received E (events ?w1) new2"
            using 1(4) by (simp add: received_append)
          ultimately show ?thesis using r(4,5) by (intro exI [of _ "new @ new2"]) simp
        next
          case (2 new ps h)
          let ?w1 = "w\<lparr>events := events w @ new\<rparr>"
          have "walk E surl pp chs (enqueue (insert cu dn) todo' (extract_nexts E ps cu))
                  (insert cu dn) (part + 1) (add_part part allc (extract_paras ps)) ?w1 = Some y"
            using "1.hyps"(2) Cons False ne 2(1) by (simp add: Let_def extract_story_content_def)
          from "1.hyps"(1) [OF this] seed' obtain new2 where
            r: "snd (snd (snd y)) = ?w1\<lparr>events := events ?w1 @ new2\<rparr>"
               "distinct (fetched new2)" "set (fetched new2) \<inter> insert cu dn = {}"
               "fst (snd y) = part + 1 + int (length (received E (events ?w1) new2))"
               "fst (snd (snd y)) = add_part part allc (extract_paras ps) @ number_parts (part + 1)
                  (map (\<lambda>r. extract_paras (snd r)) (received E (events ?w1) new2))"
            by blast
          have "snd (snd (snd y)) = w\<lparr>events := events w @ (new @ new2)\<rparr>" using r(1) by simp
          moreover have "distinct (fetched (new @ new2))"
            using 2(2) r(2,3) by (auto simp: fetched_append)
          moreover have "set (fetched (new @ new2)) \<inter> dn = {}"
            using 2(2) r(3) False by (auto simp: fetched_append)
          moreover have "received E (events w) (new @ new2)
              = (cu, ps) # received E (events ?w1) new2"
            using 2(4) by (simp add: received_append)
          ultimately show ?thesis using r(4,5)
            by (intro exI [of _ "new @ new2"]) (simp add: add_part_number)
        qed
      qed
    qed
  qed
qed

lemma story_walk_start:
  assumes "story_walk E surl pp chs [surl] {} 1 [] w = Some y"
  shows "\<exists>new. snd (snd (snd y)) = w\<lparr>events := events w @ new\<rparr>
     \<and> distinct (fetched new) \<and> surl \<notin> set (fetched new)
     \<and> fst (snd y) = 2 + int (length (received E (events w) new))
     \<and> fst (snd (snd y))
         = number_parts 1 (pp # map (\<lambda>r. extract_paras (snd r)) (received E (events w) new))"
proof -
  have "story_walk E surl pp chs (enqueue {surl} [] chs) {surl} 2 (add_part 1 [] pp) w = Some y"
    using assms story_walk_seed [where surl = surl and dn = "{}" and E = E and pp = pp and chs = chs
            and todo = "[]" and part = 1 and allc = "[]" and w = w] by simp
  from story_walk_trace [OF this] obtain new where
    r: "snd (snd (snd y)) = w\<lparr>events := events w @ new\<rparr>"
       "distinct (fetched new)" "set (fetched new) \<inter> {surl} = {}"
       "fst (snd y) = 2 + int (length (received E (events w) new))"
       "fst (snd (snd y)) = add_part 1 [] pp @ number_parts 2
          (map (\<lambda>r. extract_paras (snd r)) (received E (events w) new))"
    by auto
  have "add_part 1 [] pp @ number_parts (1 + 1)
          (map (\<lambda>r. extract_paras (snd r)) (received E (events w) new))
        = [] @ number_parts 1 (pp # map (\<lambda>r. extract_paras (snd r)) (received E (events w) new))"
    by (rule add_part_number)
  then show ?thesis using r by (intro exI [of _ new]) auto
qed

lemma chapter_walk_total:
  assumes fin: "finite U"
      and links: "\<forall>h u sp. http_get E h u = Inr sp \<longrightarrow> set (extract_nexts E sp u) \<subseteq> U"
  shows "set pages \<subseteq> U \<Longrightarrow> \<exists>y. chapter_walk E pages dn part pc w = Some y"
proof (induction "card (U - dn)" arbitrary: pages "dn" part pc w rule: less_induct)
  case less
  have closed: "\<And>h u sp. http_get E h u = Inr sp \<Longrightarrow> set (extract_nexts E sp u) \<subseteq> U"
    using links by blast
  show ?case using less.prems
  proof (induction pages arbitrary: w)
    case Nil
    show ?case by (simp add: chapter_walk_Nil)
  next
    case (Cons cu pages)
    then have sub: "set pages \<subseteq> U" and uU: "cu \<in> U" by auto
    show ?case
    proof (cases "cu \<in> dn")
      case True
      then show ?thesis using Cons.IH [OF sub] by (simp add: chapter_walk_seen)
    next
      case False
      have lt: "card (U - insert cu dn) < card (U - dn)"
        using fin uU False by (rule card_visit)
      show ?thesis
      proof (cases rule: fetch_cases [of E cu w])
        case (1 new)
        show ?thesis
          using chapter_walk_failed [OF False 1(1)] less.hyps [OF lt sub] by simp
      next
        case (2 new ps h)
        have "set (enqueue (insert cu dn) pages (extract_nexts E ps cu)) \<subseteq> U"
          using set_enqueue [where dn = "insert cu dn" and todo = pages and nexts = "extract_nexts E ps cu"] sub
                closed [OF 2(3)] by blast
        then show ?thesis
          using chapter_walk_page [OF False 2(1)] less.hyps [OF lt] by simp
      qed
    qed
  qed
qed

lemma story_walk_total:
  assumes fin: "finite U"
      and links: "\<forall>h u sp. http_get E h u = Inr sp \<longrightarrow> set (extract_nexts E sp u) \<subseteq> U"
      and chs: "set chs \<subseteq> U"
  shows "set todo \<subseteq> U \<Longrightarrow> \<exists>y. story_walk E surl pp chs todo dn part allc w = Some y"
proof (induction "card (U - dn)" arbitrary: todo "dn" part allc w rule: less_induct)
  case less
  have closed: "\<And>h u sp. http_get E h u = Inr sp \<Longrightarrow> set (extract_nexts E sp u) \<subseteq> U"
    using links by blast
  show ?case using less.prems
  proof (induction todo arbitrary: w)
    case Nil
    show ?case by (simp add: story_walk_Nil)
  next
    case (Cons cu todo)
    then have sub: "set todo \<subseteq> U" and uU: "cu \<in> U" by auto
    show ?case
    proof (cases "cu \<in> dn")
      case True
      then show ?thesis using Cons.IH [OF sub] by (simp add: story_walk_seen)
    next
      case False
      have lt: "card (U - insert cu dn) < card (U - dn)"
        using fin uU False by (rule card_visit)
      show ?thesis
      proof (cases "cu = surl")
        case True
        have "set (enqueue (insert surl dn) todo chs) \<subseteq> U"
          using set_enqueue [where dn = "insert surl dn" and todo = todo and nexts = chs] sub chs by blast
        then show ?thesis
          using story_walk_seed [where surl = surl and dn = dn] False True less.hyps [OF lt] by simp
      next
        case ne: False
        show ?thesis
        proof (cases rule: fetch_cases [of E cu w])
          case (1 new)
          show ?thesis
            using story_walk_failed [OF False ne 1(1)] less.hyps [OF lt sub] by simp
        next
          case (2 new ps h)
          have "set (enqueue (insert cu dn) todo (extract_nexts E ps cu)) \<subseteq> U"
            using set_enqueue [where dn = "insert cu dn" and todo = todo and nexts = "extract_nexts E ps cu"] sub
                  closed [OF 2(3)] by blast
          then show ?thesis
            using story_walk_page [OF False ne 2(1)] less.hyps [OF lt] by simp
        qed
      qed
    qed
  qed
qed

subsection \<open>Running the example sites\<close>

lemma site_not_blocked: "\<not> list_ex (\<lambda>k. contains k (url_host (site pages) u)) blocked"
  by (simp add: blocked_def url_host_def site_def char_eval startswith_def)

lemma site_fetch_ok:
  "pages u = Inr sp \<Longrightarrow>
   make_request_with_retry (site pages) u 3 w = (Some sp, w\<lparr>events := events w @ [Sleep 0, Get 0 u]\<rparr>)"
  using site_not_blocked [of pages u]
  by (simp add: make_request_with_retry_def upto_rec1 Let_def emit_def) (simp add: site_def)

lemma site_fetch_failed:
  "pages u = Inl e \<Longrightarrow>
   make_request_with_retry (site pages) u 3 w = (None, w\<lparr>events := events w @ failed_fetch u e\<rparr>)"
  using site_not_blocked [of pages u]
  by (simp add: make_request_with_retry_def upto_rec1 Let_def emit_def failed_fetch_def)
     (simp add: site_def)

lemma story_page_paras:
  "extract_paras (story_page ''The Tale'' [''It was a dark night.'', ''The rain fell hard.''] ns)
     = [''It was a dark night.'', ''The rain fell hard.'']"
  "extract_paras (story_page ''The Tale'' [''Morning came at last.'', ''The road was dry.''] ns)
     = [''Morning came at last.'', ''The road was dry.'']"
  "extract_paras (story_page ''My Tale'' [''Once upon a time.'', ''They lived happily.''] ns)
     = [''Once upon a time.'', ''They lived happily.'']"
  "extract_paras (story_page t [] ns) = []"
  by (simp_all add: extract_paras_def body_sels_def story_page_def para_def add_para_def)

lemma story_page_nexts:
  "extract_nexts (site pages) (story_page t ps []) u = []"
  "h \<noteq> [] \<Longrightarrow> extract_nexts (site pages) (story_page t ps [link ''Next'' h]) u = [h]"
  "extract_nexts (site pages) (story_page t ps [link ''2'' url_b, link ''3'' url_c]) u
     = [url_b, url_c]"
  by (simp_all add: extract_nexts_def n_sels_def story_page_def link_def add_next_def site_def
                    url_b_def url_c_def char_eval startswith_def isdigit_def
                    is_digit_def is_decimal_def strip_def is_space_def)

lemma story_page_series: "extract_series E (story_page t ps ns) = None"
  by (simp add: extract_series_def select_one_def story_page_def)


subsection \<open>A walk without end\<close>

lemma chain_fetch:
  "make_request_with_retry chain_site u 3 w
     = (Some (chain_page u), w\<lparr>events := events w @ [Sleep 0, Get 0 u]\<rparr>)"
  unfolding chain_site_def by (rule site_fetch_ok) simp

lemma chain_nexts: "extract_nexts chain_site (chain_page u) u = [u @ ''0'']"
  unfolding chain_site_def chain_page_def by (rule story_page_nexts) simp

lemma chain_enqueue:
  assumes "\<forall>d\<in>dn. length d < length u"
  shows "enqueue (insert u dn) [] [u @ ''0''] = [u @ ''0'']"
proof -
  have "u @ ''0'' \<noteq> u" by simp
  moreover have "u @ ''0'' \<notin> dn" using assms by fastforce
  ultimately show ?thesis by (simp add: enqueue_def)
qed

lemma chain_series_walk:
  assumes "series_walk E todo dn w = Some y"
  shows "\<not> (E = chain_site \<and> (\<exists>u. todo = [u] \<and> (\<forall>d\<in>dn. length d < length u)))"
proof (induct rule: series_walk.raw_induct [OF _ assms])
  case (1 walk E todo dn w y)
  show ?case
  proof
    assume "E = chain_site \<and> (\<exists>u. todo = [u] \<and> (\<forall>d\<in>dn. length d < length u))"
    then obtain u where E: "E = chain_site" and todo: "todo = [u]"
      and small: "\<forall>d\<in>dn. length d < length u" by blast
    have new: "u \<notin> dn" using small by auto
    let ?w1 = "w\<lparr>events := events w @ [Sleep 0, Get 0 u]\<rparr>"
    have "walk chain_site [u @ ''0''] (insert u dn) ?w1 = Some y"
      using "1.hyps"(2) E todo new chain_enqueue [OF small]
      by (simp add: chain_fetch extract_story_content_def chain_nexts Let_def
                    story_page_series chain_page_def [symmetric])
         (simp add: chain_page_def story_page_series)
    from "1.hyps"(1) [OF this] have "\<not> (\<forall>d\<in>insert u dn. length d < length (u @ ''0''))"
      by simp
    then show False using small by auto
  qed
qed

lemma chain_chapter_walk:
  assumes "chapter_walk E pages dn part pc w = Some y"
  shows "\<not> (E = chain_site \<and> (\<exists>u. pages = [u] \<and> (\<forall>d\<in>dn. length d < length u)))"
proof (induct rule: chapter_walk.raw_induct [OF _ assms])
  case (1 walk E pages dn part pc w y)
  show ?case
  proof
    assume "E = chain_site \<and> (\<exists>u. pages = [u] \<and> (\<forall>d\<in>dn. length d < length u))"
    then obtain u where E: "E = chain_site" and pages: "pages = [u]"
      and small: "\<forall>d\<in>dn. length d < length u" by blast
    have new: "u \<notin> dn" using small by auto
    let ?w1 = "w\<lparr>events := events w @ [Sleep 0, Get 0 u]\<rparr>"
    have "walk chain_site [u @ ''0''] (insert u dn) (part + 1)
            (add_part part pc (extract_paras (chain_page u))) ?w1 = Some y"
      using "1.hyps"(2) E pages new chain_enqueue [OF small]
      by (simp add: chain_fetch extract_story_content_def chain_nexts Let_def)
    from "1.hyps"(1) [OF this] have "\<not> (\<forall>d\<in>insert u dn. length d < length (u @ ''0''))"
      by simp
    then show False using small by auto
  qed
qed

text \<open>
  C2 as it is written fails on a link graph that is not finite: on the site whose every
  page links to a new url, neither the series walk nor the chapter walk returns.
\<close>

theorem endless_site_counterexample:
  "find_series_link_from_all_pages chain_site chain_seed w0 = None
   \<and> chapter_walk chain_site [chain_seed] {} 1 [] w0 = None"
proof
  show "find_series_link_from_all_pages chain_site chain_seed w0 = None"
  proof (cases "series_walk chain_site [chain_seed] {} w0")
    case None
    then show ?thesis by (simp add: find_series_link_from_all_pages_def)
  next
    case (Some y)
    from chain_series_walk [OF this] show ?thesis by simp
  qed
  show "chapter_walk chain_site [chain_seed] {} 1 [] w0 = None"
  proof (cases "chapter_walk chain_site [chain_seed] {} 1 [] w0")
    case None
    then show ?thesis .
  next
    case (Some y)
    from chain_chapter_walk [OF this] show ?thesis by simp
  qed
qed

text \<open>
  C2, on a finite link graph.  When every next link that any answer of the server can
  carry lies in a finite set \<open>U\<close> of urls that holds the seed, each of the three walks
  returns, and among the requests it has added no url is fetched twice; the walk of the
  single story mode does not fetch its seed at all, since that page was fetched before
  the loop.  Each iteration either drops a visited url from the queue or puts a new url
  of \<open>U\<close> into the visited set, which is the measure of the proof.
\<close>

theorem walks_terminate_on_finite_sites:
  assumes "finite U" and "seed \<in> U" and "set chs \<subseteq> U"
      and "\<forall>h u sp. http_get E h u = Inr sp
             \<longrightarrow> set (fst (snd (snd (extract_story_content E sp u)))) \<subseteq> U"
  shows "(\<exists>r new. find_series_link_from_all_pages E seed w
                    = Some (r, w\<lparr>events := events w @ new\<rparr>)
                \<and> distinct (fetched new))
       \<and> (\<exists>dn part pc new. chapter_walk E [seed] {} 1 [] w
                    = Some (dn, part, pc, w\<lparr>events := events w @ new\<rparr>)
                \<and> distinct (fetched new))
       \<and> (\<exists>dn part allc new. story_walk E seed pp chs [seed] {} 1 [] w
                    = Some (dn, part, allc, w\<lparr>events := events w @ new\<rparr>)
                \<and> distinct (fetched new) \<and> seed \<notin> set (fetched new))"
proof -
  have closed: "\<forall>h u sp. http_get E h u = Inr sp \<longrightarrow> set (extract_nexts E sp u) \<subseteq> U"
    using assms(4) by (simp add: extract_story_content_def)
  have seed: "set [seed] \<subseteq> U" using assms(2) by simp
  have "\<exists>r new. find_series_link_from_all_pages E seed w
                    = Some (r, w\<lparr>events := events w @ new\<rparr>) \<and> distinct (fetched new)"
    using series_walk_total [OF assms(1) closed seed, where dn = "{}" and w = w]
    unfolding find_series_link_from_all_pages_def by blast
  moreover have "\<exists>dn part pc new. chapter_walk E [seed] {} 1 [] w
                    = Some (dn, part, pc, w\<lparr>events := events w @ new\<rparr>)
                \<and> distinct (fetched new)"
  proof -
    from chapter_walk_total [OF assms(1) closed seed, where dn = "{}" and part = 1 and pc = "[]"
           and w = w]
    obtain y where y: "chapter_walk E [seed] {} 1 [] w = Some y" by blast
    from chapter_walk_trace [OF y] obtain new where
      "snd (snd (snd y)) = w\<lparr>events := events w @ new\<rparr>" "distinct (fetched new)" by blast
    then have "chapter_walk E [seed] {} 1 [] w
        = Some (fst y, fst (snd y), fst (snd (snd y)), w\<lparr>events := events w @ new\<rparr>)"
      using y by (metis prod.collapse)
    then show ?thesis using \<open>distinct (fetched new)\<close> by blast
  qed
  moreover have "\<exists>dn part allc new. story_walk E seed pp chs [seed] {} 1 [] w
                    = Some (dn, part, allc, w\<lparr>events := events w @ new\<rparr>)
                \<and> distinct (fetched new) \<and> seed \<notin> set (fetched new)"
  proof -
    from story_walk_total [OF assms(1) closed assms(3) seed, where surl = seed and pp = pp
           and dn = "{}" and part = 1 and allc = "[]" and w = w]
    obtain y where y: "story_walk E seed pp chs [seed] {} 1 [] w = Some y" by blast
    from story_walk_start [OF y] obtain new where
      n: "snd (snd (snd y)) = w\<lparr>events := events w @ new\<rparr>" "distinct (fetched new)"
         "seed \<notin> set (fetched new)" by blast
    then have "story_walk E seed pp chs [seed] {} 1 [] w
        = Some (fst y, fst (snd y), fst (snd (snd y)), w\<lparr>events := events w @ new\<rparr>)"
      using y by (metis prod.collapse)
    then show ?thesis using n(2,3) by blast
  qed
  ultimately show ?thesis by blast
qed

lemma http_get_site: "http_get (site pages) h u = pages u"
  by (simp add: site_def)

theorem walks_terminate_on_finite_sites_witness:
  "(\<exists>r new. find_series_link_from_all_pages cycle_site url_a w0
                    = Some (r, w0\<lparr>events := events w0 @ new\<rparr>)
                \<and> distinct (fetched new))
       \<and> (\<exists>dn part pc new. chapter_walk cycle_site [url_a] {} 1 [] w0
                    = Some (dn, part, pc, w0\<lparr>events := events w0 @ new\<rparr>)
                \<and> distinct (fetched new))
       \<and> (\<exists>dn part allc new. story_walk cycle_site url_a [] [url_b] [url_a] {} 1 [] w0
                    = Some (dn, part, allc, w0\<lparr>events := events w0 @ new\<rparr>)
                \<and> distinct (fetched new) \<and> url_a \<notin> set (fetched new))"
proof -
  have fin: "finite {url_a, url_b}" by simp
  have seed: "url_a \<in> {url_a, url_b}" by simp
  have chs: "set [url_b] \<subseteq> {url_a, url_b}" by simp
  have ne: "url_a \<noteq> []" "url_b \<noteq> []" by (simp_all add: url_a_def url_b_def)
  have links: "\<forall>h u sp. http_get cycle_site h u = Inr sp
      \<longrightarrow> set (fst (snd (snd (extract_story_content cycle_site sp u)))) \<subseteq> {url_a, url_b}"
    unfolding cycle_site_def extract_story_content_def
    using ne by (auto simp: http_get_site story_page_nexts split: if_splits)
  show ?thesis
    by (rule walks_terminate_on_finite_sites [OF fin seed chs links])
qed

subsection \<open>Part numbers\<close>

lemma gap_fetch:
  "make_request_with_retry gap_site url_a 3 w
     = (Some gap_page_a, w\<lparr>events := events w @ [Sleep 0, Get 0 url_a]\<rparr>)"
  "make_request_with_retry gap_site url_b 3 w
     = (None, w\<lparr>events := events w @ failed_fetch url_b ''503''\<rparr>)"
  "make_request_with_retry gap_site url_c 3 w
     = (Some gap_page_c, w\<lparr>events := events w @ [Sleep 0, Get 0 url_c]\<rparr>)"
  unfolding gap_site_def
  by (rule site_fetch_ok site_fetch_failed, simp add: url_a_def url_b_def url_c_def)+

lemma gap_pages:
  "extract_paras gap_page_a = [''It was a dark night.'', ''The rain fell hard.'']"
  "extract_paras gap_page_c = [''Morning came at last.'', ''The road was dry.'']"
  "extract_nexts gap_site gap_page_a u = [url_b, url_c]"
  "extract_nexts gap_site gap_page_c u = []"
  unfolding gap_page_a_def gap_page_c_def gap_site_def
  by (rule story_page_paras story_page_nexts)+

lemma gap_urls: "url_a \<noteq> url_b" "url_a \<noteq> url_c" "url_b \<noteq> url_c"
  by (simp_all add: url_a_def url_b_def url_c_def)

lemma part_two: "add_part 2 [a, b] [c, d] = [a, b, ''PART 2'', c, d]"
  by (simp add: add_part_def str_int_def digits_of_nat.simps)

lemma gap_chapter_walk:
  "chapter_walk gap_site [url_a] {} 1 [] w0
     = Some ({url_c, url_b, url_a}, 3,
             [''It was a dark night.'', ''The rain fell hard.'', ''PART 2'',
              ''Morning came at last.'', ''The road was dry.''],
             w0\<lparr>events := events w0 @ [Sleep 0, Get 0 url_a] @ failed_fetch url_b ''503''
                              @ [Sleep 0, Get 0 url_c]\<rparr>)"
proof -
  let ?w1 = "w0\<lparr>events := events w0 @ [Sleep 0, Get 0 url_a]\<rparr>"
  let ?w2 = "?w1\<lparr>events := events ?w1 @ failed_fetch url_b ''503''\<rparr>"
  let ?w3 = "?w2\<lparr>events := events ?w2 @ [Sleep 0, Get 0 url_c]\<rparr>"
  let ?pa = "[''It was a dark night.'', ''The rain fell hard.'']"
  have "chapter_walk gap_site [url_a] {} 1 [] w0
      = chapter_walk gap_site [url_b, url_c] {url_a} 2 ?pa ?w1"
    using gap_urls
    by (simp add: chapter_walk_page [OF _ gap_fetch(1)] gap_pages enqueue_def add_part_def)
  also have "\<dots> = chapter_walk gap_site [url_c] {url_b, url_a} 2 ?pa ?w2"
    using gap_urls by (simp add: chapter_walk_failed [OF _ gap_fetch(2)])
  also have "\<dots> = chapter_walk gap_site [] {url_c, url_b, url_a} 3
                     (add_part 2 ?pa [''Morning came at last.'', ''The road was dry.'']) ?w3"
    using gap_urls
    by (simp add: chapter_walk_page [OF _ gap_fetch(3)] gap_pages enqueue_def)
  finally show ?thesis by (simp add: chapter_walk_Nil part_two)
qed

lemma gap_story_walk:
  "story_walk gap_site url_a [''It was a dark night.'', ''The rain fell hard.'']
       [url_b, url_c] [url_a] {} 1 [] w0
     = Some ({url_c, url_b, url_a}, 3,
             [''It was a dark night.'', ''The rain fell hard.'', ''PART 2'',
              ''Morning came at last.'', ''The road was dry.''],
             w0\<lparr>events := events w0 @ failed_fetch url_b ''503'' @ [Sleep 0, Get 0 url_c]\<rparr>)"
proof -
  let ?w2 = "w0\<lparr>events := events w0 @ failed_fetch url_b ''503''\<rparr>"
  let ?w3 = "?w2\<lparr>events := events ?w2 @ [Sleep 0, Get 0 url_c]\<rparr>"
  let ?pa = "[''It was a dark night.'', ''The rain fell hard.'']"
  let ?walk = "story_walk gap_site url_a ?pa [url_b, url_c]"
  have "?walk [url_a] {} 1 [] w0 = ?walk [url_b, url_c] {url_a} 2 ?pa w0"
    using gap_urls by (simp add: story_walk_seed enqueue_def add_part_def)
  also have "\<dots> = ?walk [url_c] {url_b, url_a} 2 ?pa ?w2"
    using gap_urls by (simp add: story_walk_failed [OF _ _ gap_fetch(2)])
  also have "\<dots> = ?walk [] {url_c, url_b, url_a} 3
                     (add_part 2 ?pa [''Morning came at last.'', ''The road was dry.'']) ?w3"
    using gap_urls
    by (simp add: story_walk_page [OF _ _ gap_fetch(3)] gap_pages enqueue_def)
  finally show ?thesis by (simp add: story_walk_Nil part_two)
qed

text \<open>
  C3 as it is written fails on the story of three pages whose second page cannot be
  fetched: the third url popped is marked \<^verbatim>\<open>PART 2\<close>, not \<^verbatim>\<open>PART 3\<close>, and the
  counter ends at 3 after three urls.
\<close>

theorem part_index_counterexample:
  "map_option (\<lambda>(dn, part, pc, w). (dn, part, pc)) (chapter_walk gap_site [url_a] {} 1 [] w0)
     = Some ({url_c, url_b, url_a}, 3,
             [''It was a dark night.'', ''The rain fell hard.'', ''PART 2'',
              ''Morning came at last.'', ''The road was dry.''])
   \<and> fst (make_request_with_retry gap_site url_b 3 w0) = None"
  by (simp add: gap_chapter_walk gap_fetch)

text \<open>
  C3, as the source has it.  The part counter advances once for every page that was
  received, and for no url whose fetch failed: a walk that returns ends with the counter
  at 1 plus the number of pages received (one more in the single story mode, whose seed
  page was received before the loop).  Its text is the paragraphs of the received pages
  in the order of arrival, page \<open>k\<close> preceded by the marker \<^verbatim>\<open>PART k\<close> exactly when
  it has paragraphs and \<open>k\<close> exceeds 1; a received page without paragraphs still takes
  a number.
\<close>

theorem part_numbers_follow_fetched_pages:
  "(chapter_walk E [curl] {} 1 [] w = Some (dn, part, pc, w') \<longrightarrow>
      (\<exists>new. w' = w\<lparr>events := events w @ new\<rparr>
         \<and> part = 1 + int (length (received E (events w) new))
         \<and> pc = number_parts 1 (map (\<lambda>r. extract_paras (snd r)) (received E (events w) new))))
   \<and> (story_walk E surl pp chs [surl] {} 1 [] v = Some (dn', part', allc, v') \<longrightarrow>
      (\<exists>new. v' = v\<lparr>events := events v @ new\<rparr>
         \<and> part' = 2 + int (length (received E (events v) new))
         \<and> allc = number_parts 1
                    (pp # map (\<lambda>r. extract_paras (snd r)) (received E (events v) new))))"
proof (intro conjI impI)
  assume "chapter_walk E [curl] {} 1 [] w = Some (dn, part, pc, w')"
  from chapter_walk_trace [OF this]
  show "\<exists>new. w' = w\<lparr>events := events w @ new\<rparr>
         \<and> part = 1 + int (length (received E (events w) new))
         \<and> pc = number_parts 1 (map (\<lambda>r. extract_paras (snd r)) (received E (events w) new))"
    by auto
next
  assume "story_walk E surl pp chs [surl] {} 1 [] v = Some (dn', part', allc, v')"
  from story_walk_start [OF this]
  show "\<exists>new. v' = v\<lparr>events := events v @ new\<rparr>
         \<and> part' = 2 + int (length (received E (events v) new))
         \<and> allc = number_parts 1
                    (pp # map (\<lambda>r. extract_paras (snd r)) (received E (events v) new))"
    by auto
qed

theorem part_numbers_follow_fetched_pages_witness:
  "(\<exists>new. w0\<lparr>events := events w0 @ [Sleep 0, Get 0 url_a] @ failed_fetch url_b ''503''
                              @ [Sleep 0, Get 0 url_c]\<rparr> = w0\<lparr>events := events w0 @ new\<rparr>
         \<and> 3 = 1 + int (length (received gap_site (events w0) new))
         \<and> [''It was a dark night.'', ''The rain fell hard.'', ''PART 2'',
              ''Morning came at last.'', ''The road was dry.'']
           = number_parts 1 (map (\<lambda>r. extract_paras (snd r)) (received gap_site (events w0) new)))
   \<and> (\<exists>new. w0\<lparr>events := events w0 @ failed_fetch url_b ''503'' @ [Sleep 0, Get 0 url_c]\<rparr>
              = w0\<lparr>events := events w0 @ new\<rparr>
         \<and> 3 = 2 + int (length (received gap_site (events w0) new))
         \<and> [''It was a dark night.'', ''The rain fell hard.'', ''PART 2'',
              ''Morning came at last.'', ''The road was dry.'']
           = number_parts 1
               ([''It was a dark night.'', ''The rain fell hard.'']
                # map (\<lambda>r. extract_paras (snd r)) (received gap_site (events w0) new)))"
  using part_numbers_follow_fetched_pages
          [of gap_site url_a w0 "{url_c, url_b, url_a}" 3
              "[''It was a dark night.'', ''The rain fell hard.'', ''PART 2'',
                ''Morning came at last.'', ''The road was dry.'']"
              "w0\<lparr>events := events w0 @ [Sleep 0, Get 0 url_a] @ failed_fetch url_b ''503''
                              @ [Sleep 0, Get 0 url_c]\<rparr>"
              url_a "[''It was a dark night.'', ''The rain fell hard.'']" "[url_b, url_c]" w0
              "{url_c, url_b, url_a}" 3
              "[''It was a dark night.'', ''The rain fell hard.'', ''PART 2'',
                ''Morning came at last.'', ''The road was dry.'']"
              "w0\<lparr>events := events w0 @ failed_fetch url_b ''503'' @ [Sleep 0, Get 0 url_c]\<rparr>"]
        gap_chapter_walk gap_story_walk
  by blast

subsection \<open>The skip check\<close>





















subsection \<open>The listing pages\<close>










end
